theory Spec2Isabelle
  imports Main "HOL-Library.Sublist" "HOL-Library.Word"
begin

section \<open>Text and bytes\<close>

text \<open>
  \<^verbatim>\<open>cleanup_history.py\<close> works on two kinds of data: Python \<^verbatim>\<open>str\<close> values (file
  paths, decoded file contents) and \<^verbatim>\<open>bytes\<close> (what is on disk). A \<^verbatim>\<open>str\<close> is a
  sequence of Unicode code points, modelled as a list of naturals; a byte is an 8-bit
  word. \<open>ascii\<close> embeds an ASCII literal of the source into \<^verbatim>\<open>str\<close>; the backslash,
  which has no literal form here, is the code point 92.
\<close>

type_synonym byte = "8 word"
type_synonym str = "nat list"
type_synonym path = str

definition ascii :: "string \<Rightarrow> str" where
  "ascii s = map of_char s"

definition backslash :: nat where
  "backslash = 92"

subsection \<open>\<^verbatim>\<open>str.replace\<close>\<close>

text \<open>
  \<^verbatim>\<open>content.replace(old, new)\<close>: every non-overlapping occurrence of \<open>old\<close>, found
  from the left, is replaced by \<open>new\<close>. With an empty \<open>old\<close> Python puts \<open>new\<close>
  before every character and at the end.
\<close>

function replace_scan :: "str \<Rightarrow> str \<Rightarrow> str \<Rightarrow> str" where
  "replace_scan old new [] = []"
| "replace_scan old new (c # cs) =
     (if old \<noteq> [] \<and> prefix old (c # cs)
      then new @ replace_scan old new (drop (length old) (c # cs))
      else c # replace_scan old new cs)"
  by pat_completeness auto
termination
  by (relation "measure (\<lambda>(old, new, s). length s)") (auto simp: Suc_le_eq)

definition str_replace :: "str \<Rightarrow> str \<Rightarrow> str \<Rightarrow> str" where
  "str_replace old new s =
     (if old = [] then new @ concat (map (\<lambda>c. c # new) s) else replace_scan old new s)"

subsection \<open>The regular-expression substitution of \<^verbatim>\<open>re.sub\<close>\<close>

text \<open>
  Line 34 of the source substitutes \<^verbatim>\<open>/USER_HOME/\<close> for a regular expression. Writing
  B for the backslash, the expression is the literal \<^verbatim>\<open>C:BUsersB\<close>, then a negated
  class with \<^verbatim>\<open>+\<close> (a greedy run of one or more code points other than B; the negated
  class also takes newlines), then a literal B. \<open>match_at s\<close> tries the pattern at
  the start of \<open>s\<close> and returns what follows the match. The greedy run takes every
  code point up to the next backslash; giving some of them back cannot help, since the
  pattern then wants a backslash where the text has none, so the match at a position
  is unique (\<open>match_at_Some_iff\<close> and \<open>match_at_user_path\<close> below).

  \<^verbatim>\<open>re.sub\<close> scans from the left: at a match it emits the replacement and goes on
  behind the match, otherwise it copies one code point and goes on at the next. The
  replacement \<^verbatim>\<open>/USER_HOME/\<close> has no backslash, so it is taken literally.
\<close>

definition users_prefix :: str where
  "users_prefix = ascii ''C:'' @ [backslash] @ ascii ''Users'' @ [backslash]"

definition user_home :: str where
  "user_home = ascii ''/USER_HOME/''"

definition match_at :: "str \<Rightarrow> str option" where
  "match_at s =
     (if prefix users_prefix s then
        (let r = drop (length users_prefix) s;
             seg = takeWhile (\<lambda>c. c \<noteq> backslash) r;
             rest = dropWhile (\<lambda>c. c \<noteq> backslash) r
         in if seg \<noteq> [] \<and> rest \<noteq> [] then Some (tl rest) else None)
      else None)"

function re_sub :: "str \<Rightarrow> str" where
  "re_sub [] = []"
| "re_sub (c # cs) =
     (case match_at (c # cs) of
        Some rest \<Rightarrow> user_home @ re_sub rest
      | None \<Rightarrow> c # re_sub cs)"
  by pat_completeness auto
termination
proof (relation "measure length")
  fix c :: nat and cs rest :: str
  assume m: "match_at (c # cs) = Some rest"
  let ?d = "dropWhile (\<lambda>c. c \<noteq> backslash) (drop (length users_prefix) (c # cs))"
  from m have "rest = tl ?d" and "?d \<noteq> []"
    by (auto simp: match_at_def Let_def split: if_splits)
  then have "length rest < length ?d"
    by (cases ?d) auto
  also have "\<dots> \<le> length (drop (length users_prefix) (c # cs))"
    by (rule length_dropWhile_le)
  also have "\<dots> \<le> length (c # cs)"
    by simp
  finally show "(rest, c # cs) \<in> measure length"
    by simp
qed simp_all

text \<open>
  The two rewriting steps of \<^verbatim>\<open>replace_pii\<close>, applied to the text of a file
  (lines 31 and 34 of the source): the spec calls this \<^verbatim>\<open>redact\<close>.
\<close>

definition redact :: "str \<Rightarrow> str" where
  "redact content =
     (let content = str_replace (ascii ''USER'') (ascii ''USER'') content;
          content = re_sub content
      in content)"

text \<open>
  The spec's words for the pattern: \<^verbatim>\<open>C:\<close>, a backslash, \<^verbatim>\<open>Users\<close>, a backslash, a
  segment, a backslash, the segment being one or more characters none of which is a
  backslash. \<open>user_path m\<close> says that the whole of \<open>m\<close> is such a text;
  \<open>has_match s\<close> that the pattern matches somewhere in \<open>s\<close>.
\<close>

definition user_path :: "str \<Rightarrow> bool" where
  "user_path m =
     (prefix users_prefix m \<and>
      (let t = drop (length users_prefix) m
       in 2 \<le> length t \<and> last t = backslash \<and> backslash \<notin> set (butlast t)))"

fun has_match :: "str \<Rightarrow> bool" where
  "has_match [] = False"
| "has_match (c # cs) = (match_at (c # cs) \<noteq> None \<or> has_match cs)"

subsection \<open>UTF-8\<close>

text \<open>
  \<^verbatim>\<open>open(file_path, 'r', encoding='utf-8')\<close> decodes strictly: a byte sequence is
  accepted only if it is well-formed UTF-8 (no overlong form, no surrogate, nothing
  above U+10FFFF); anything else raises \<^verbatim>\<open>UnicodeDecodeError\<close>. \<open>utf8_decode_cp\<close>
  reads one code point off the front of the bytes and returns it with the number of
  bytes it took. Writing encodes; a \<^verbatim>\<open>str\<close> holding a surrogate cannot be encoded
  (\<^verbatim>\<open>UnicodeEncodeError\<close>).
\<close>

definition is_cont :: "byte \<Rightarrow> bool" where
  "is_cont b = (0x80 \<le> unat b \<and> unat b \<le> 0xBF)"

fun utf8_decode_cp :: "byte list \<Rightarrow> (nat \<times> nat) option" where
  "utf8_decode_cp [] = None"
| "utf8_decode_cp (b0 # bs) =
     (let n0 = unat b0 in
      if n0 < 0x80 then Some (n0, 1)
      else if 0xC2 \<le> n0 \<and> n0 \<le> 0xDF then
        (case bs of
           b1 # r \<Rightarrow>
             if is_cont b1
             then Some ((n0 - 0xC0) * 64 + (unat b1 - 0x80), 2)
             else None
         | _ \<Rightarrow> None)
      else if 0xE0 \<le> n0 \<and> n0 \<le> 0xEF then
        (case bs of
           b1 # b2 # r \<Rightarrow>
             (let cp = (n0 - 0xE0) * 4096 + (unat b1 - 0x80) * 64 + (unat b2 - 0x80) in
              if is_cont b1 \<and> is_cont b2 \<and> 0x800 \<le> cp \<and> \<not> (0xD800 \<le> cp \<and> cp \<le> 0xDFFF)
              then Some (cp, 3)
              else None)
         | _ \<Rightarrow> None)
      else if 0xF0 \<le> n0 \<and> n0 \<le> 0xF4 then
        (case bs of
           b1 # b2 # b3 # r \<Rightarrow>
             (let cp = (n0 - 0xF0) * 262144 + (unat b1 - 0x80) * 4096
                        + (unat b2 - 0x80) * 64 + (unat b3 - 0x80) in
              if is_cont b1 \<and> is_cont b2 \<and> is_cont b3 \<and> 0x10000 \<le> cp \<and> cp \<le> 0x10FFFF
              then Some (cp, 4)
              else None)
         | _ \<Rightarrow> None)
      else None)"

fun utf8_decode :: "byte list \<Rightarrow> str option" where
  "utf8_decode [] = Some []"
| "utf8_decode (b # bs) =
     (case utf8_decode_cp (b # bs) of
        None \<Rightarrow> None
      | Some (cp, n) \<Rightarrow> map_option ((#) cp) (utf8_decode (drop (n - 1) bs)))"

definition utf8_encode_cp :: "nat \<Rightarrow> byte list option" where
  "utf8_encode_cp cp =
     (if cp < 0x80 then Some [of_nat cp]
      else if cp < 0x800 then Some [of_nat (0xC0 + cp div 64), of_nat (0x80 + cp mod 64)]
      else if cp < 0x10000 then
        (if 0xD800 \<le> cp \<and> cp \<le> 0xDFFF then None
         else Some [of_nat (0xE0 + cp div 4096), of_nat (0x80 + cp div 64 mod 64),
                    of_nat (0x80 + cp mod 64)])
      else if cp \<le> 0x10FFFF then
        Some [of_nat (0xF0 + cp div 262144), of_nat (0x80 + cp div 4096 mod 64),
              of_nat (0x80 + cp div 64 mod 64), of_nat (0x80 + cp mod 64)]
      else None)"

fun utf8_encode :: "str \<Rightarrow> byte list option" where
  "utf8_encode [] = Some []"
| "utf8_encode (cp # cps) =
     (case utf8_encode_cp cp of
        None \<Rightarrow> None
      | Some bs \<Rightarrow> map_option ((@) bs) (utf8_encode cps))"

subsection \<open>Line endings in text mode\<close>

text \<open>
  Both \<^verbatim>\<open>open\<close> calls on text leave \<^verbatim>\<open>newline\<close> at its default. Reading then
  translates every line ending of the file (CR LF, a lone CR, LF) to a single LF
  (code point 10); writing turns every LF into \<^verbatim>\<open>os.linesep\<close>.
\<close>

fun nl_read :: "str \<Rightarrow> str" where
  "nl_read [] = []"
| "nl_read [c] = (if c = 13 then [10] else [c])"
| "nl_read (c # d # cs) =
     (if c = 13 then (if d = 10 then 10 # nl_read cs else 10 # nl_read (d # cs))
      else c # nl_read (d # cs))"

definition nl_write :: "str \<Rightarrow> str \<Rightarrow> str" where
  "nl_write sep s = concat (map (\<lambda>c. if c = 10 then sep else [c]) s)"


text \<open>
  \<^verbatim>\<open>for line in f\<close> yields the lines of the translated text, each with its LF (the
  last line may lack one); \<^verbatim>\<open>line.strip()\<close> drops the white space, as
  \<^verbatim>\<open>str.isspace\<close> defines it, from both ends.
\<close>

fun py_lines :: "str \<Rightarrow> str list" where
  "py_lines [] = []"
| "py_lines (c # cs) =
     (if c = 10 then [c] # py_lines cs
      else (case py_lines cs of [] \<Rightarrow> [[c]] | l # ls \<Rightarrow> (c # l) # ls))"

definition isspace :: "nat \<Rightarrow> bool" where
  "isspace c =
     ((9 \<le> c \<and> c \<le> 13) \<or> (28 \<le> c \<and> c \<le> 32) \<or> c = 0x85 \<or> c = 0xA0 \<or> c = 0x1680 \<or>
      (0x2000 \<le> c \<and> c \<le> 0x200A) \<or> c = 0x2028 \<or> c = 0x2029 \<or> c = 0x202F \<or>
      c = 0x205F \<or> c = 0x3000)"

definition strip :: "str \<Rightarrow> str" where
  "strip s = rev (dropWhile isspace (rev (dropWhile isspace s)))"

section \<open>The world the script runs in\<close>

text \<open>
  The script acts on the files of the working directory and on git's staging area, and
  it prints. A \<open>world\<close> holds the files (path to bytes), the staging area, the
  trace of what the script has done so far (every \<^verbatim>\<open>open\<close> call, every \<^verbatim>\<open>print\<close>
  call and every shell command, in order, whether it succeeded or not), and what the
  environment refuses:
  \<^item> \<open>io_fault w p m\<close>: \<^verbatim>\<open>open\<close> of \<open>p\<close> in mode \<open>m\<close> raises \<^verbatim>\<open>OSError\<close> (for the
    reading modes: \<^verbatim>\<open>open\<close> or the \<^verbatim>\<open>read\<close> that follows it), and the file is as it
    was;
  \<^item> \<open>write_fault w p = Some n\<close>: once \<open>p\<close> is open for writing, and so truncated,
    the write or the flush at \<^verbatim>\<open>close\<close> raises \<^verbatim>\<open>OSError\<close> when \<open>n\<close> bytes have reached
    the file (a full disk, a quota);
  \<^item> \<open>print_fault w t p e = Some x\<close>: after the actions \<open>t\<close>, the \<^verbatim>\<open>print\<close> of the
    line for path \<open>p\<close> and error \<open>e\<close> raises \<open>x\<close> (standard output is closed or full,
    or its encoding has no character for the path);
  \<^item> \<open>flush_fault w t\<close>: after the actions \<open>t\<close>, the interpreter cannot flush
    standard output when it exits;
  \<^item> \<open>git_fault w\<close>: \<^verbatim>\<open>git add .\<close> fails (no repository, a locked index) and stages
    nothing; \<open>ignored w p\<close>: an ignore rule covers \<open>p\<close>.

  What depends on the platform and not on the script is a parameter: the kind of
  system, which fixes \<^verbatim>\<open>os.linesep\<close> (LF on POSIX, CR LF on Windows), and the
  decoder of the encoding \<^verbatim>\<open>open\<close> takes when the script names none (the locale's).
\<close>

datatype mode = RB | R | W

datatype error = OSError | UnicodeDecodeError | UnicodeEncodeError

datatype event = Open path mode | Print path error | System string

record world =
  files :: "path \<rightharpoonup> byte list"
  io_fault :: "path \<Rightarrow> mode \<Rightarrow> bool"
  write_fault :: "path \<Rightarrow> nat option"
  print_fault :: "event list \<Rightarrow> path \<Rightarrow> error \<Rightarrow> error option"
  flush_fault :: "event list \<Rightarrow> bool"
  git_fault :: bool
  ignored :: "path \<Rightarrow> bool"
  staged :: "path \<rightharpoonup> byte list"
  trace :: "event list"

datatype os = Posix | Nt

record platform =
  os_name :: os
  locale_decode :: "byte list \<Rightarrow> str option"

definition linesep :: "platform \<Rightarrow> str" where
  "linesep pf = (case os_name pf of Posix \<Rightarrow> [10] | Nt \<Rightarrow> [13, 10])"

definition log_event :: "event \<Rightarrow> world \<Rightarrow> world" where
  "log_event e w = w\<lparr>trace := trace w @ [e]\<rparr>"

text \<open>
  \<^verbatim>\<open>open(p, 'rb')\<close> or \<^verbatim>\<open>open(p, 'r')\<close> followed by \<^verbatim>\<open>read\<close>: the bytes of the file,
  or \<^verbatim>\<open>OSError\<close> when there is no such file or the system refuses.
\<close>

definition open_read :: "path \<Rightarrow> mode \<Rightarrow> world \<Rightarrow> (error + byte list) \<times> world" where
  "open_read p m w =
     (let w' = log_event (Open p m) w in
      case files w p of
        None \<Rightarrow> (Inl OSError, w')
      | Some bs \<Rightarrow> if io_fault w p m then (Inl OSError, w') else (Inr bs, w'))"

text \<open>
  \<^verbatim>\<open>with open(file_path, 'r', encoding='utf-8') as f: content = f.read()\<close>
\<close>

definition read_text :: "path \<Rightarrow> world \<Rightarrow> (error + str) \<times> world" where
  "read_text p w =
     (case open_read p R w of
        (Inl e, w') \<Rightarrow> (Inl e, w')
      | (Inr bs, w') \<Rightarrow>
          (case utf8_decode bs of
             None \<Rightarrow> (Inl UnicodeDecodeError, w')
           | Some s \<Rightarrow> (Inr (nl_read s), w')))"

text \<open>
  \<^verbatim>\<open>with open(file_path, 'w', encoding='utf-8') as f: f.write(content)\<close>. If
  \<^verbatim>\<open>open\<close> is refused the file is as it was. Otherwise \<^verbatim>\<open>open\<close> has truncated it:
  if the text cannot be encoded nothing is written and the file stays empty; if the
  write or the flush raises, the file holds the bytes written until then.
\<close>

definition write_text :: "platform \<Rightarrow> path \<Rightarrow> str \<Rightarrow> world \<Rightarrow> error option \<times> world" where
  "write_text pf p content w =
     (let w' = log_event (Open p W) w in
      if io_fault w p W then (Some OSError, w')
      else
        (case utf8_encode (nl_write (linesep pf) content) of
           None \<Rightarrow> (Some UnicodeEncodeError, w'\<lparr>files := (files w')(p \<mapsto> [])\<rparr>)
         | Some bs \<Rightarrow>
             (case write_fault w p of
                None \<Rightarrow> (None, w'\<lparr>files := (files w')(p \<mapsto> bs)\<rparr>)
              | Some n \<Rightarrow> (Some OSError, w'\<lparr>files := (files w')(p \<mapsto> take n bs)\<rparr>))))"

section \<open>\<^verbatim>\<open>is_binary\<close>\<close>

text \<open>
  \<^verbatim>\<open>textchars = bytearray({7,8,9,10,12,13,27} | set(range(0x20, 0x100)) - {0x7f})\<close>:
  the set difference binds tighter than the union. \<^verbatim>\<open>translate(None, textchars)\<close>
  deletes the bytes of \<open>textchars\<close>; the result is true when a byte is left.
  \<open>is_binary_try\<close> is the body of the \<^verbatim>\<open>try\<close>, \<open>is_binary\<close> adds the bare
  \<^verbatim>\<open>except: return True\<close>.
\<close>

definition textchars :: "byte set" where
  "textchars = {7, 8, 9, 10, 12, 13, 27} \<union> ({0x20 .. 0xFF} - {0x7F})"

definition is_binary_string :: "byte list \<Rightarrow> bool" where
  "is_binary_string bytes_to_check = (filter (\<lambda>b. b \<notin> textchars) bytes_to_check \<noteq> [])"

definition is_binary_try :: "path \<Rightarrow> world \<Rightarrow> (error + bool) \<times> world" where
  "is_binary_try file_path w =
     (case open_read file_path RB w of
        (Inl e, w') \<Rightarrow> (Inl e, w')
      | (Inr bs, w') \<Rightarrow> (Inr (is_binary_string (take 1024 bs)), w'))"

definition is_binary :: "path \<Rightarrow> world \<Rightarrow> bool \<times> world" where
  "is_binary file_path w =
     (case is_binary_try file_path w of
        (Inl e, w') \<Rightarrow> (True, w')
      | (Inr b, w') \<Rightarrow> (b, w'))"

section \<open>\<^verbatim>\<open>replace_pii\<close>\<close>

text \<open>
  \<open>replace_pii_try\<close> is the body of the \<^verbatim>\<open>try\<close>: it returns the exception raised,
  if any, with the world as the body left it. \<^verbatim>\<open>is_binary\<close> is the first operand of
  the \<^verbatim>\<open>or\<close> chain, so the file is probed before the path is looked at.

  \<open>replace_pii\<close> adds the handler
  \<^verbatim>\<open>except Exception as e: print(f"Error processing {file_path}: {e}")\<close>. The
  \<^verbatim>\<open>print\<close> call is the event \<open>Print file_path e\<close>. It stands in the handler, outside
  any \<^verbatim>\<open>try\<close>: if it raises, that exception leaves \<^verbatim>\<open>replace_pii\<close>, which is what
  \<open>replace_pii\<close> returns beside the world.
\<close>

definition replace_pii_try :: "platform \<Rightarrow> path \<Rightarrow> world \<Rightarrow> error option \<times> world" where
  "replace_pii_try pf file_path w =
     (case is_binary file_path w of
        (b, w1) \<Rightarrow>
          if b \<or>
             sublist (ascii ''vendor/'') file_path \<or>
             sublist (ascii ''node_modules/'') file_path \<or>
             sublist (ascii ''.git/'') file_path \<or>
             sublist (ascii ''.history/'') file_path \<or>
             sublist (ascii ''dist/'') file_path
          then (None, w1)
          else
            (case read_text file_path w1 of
               (Inl e, w2) \<Rightarrow> (Some e, w2)
             | (Inr content, w2) \<Rightarrow>
                 (let content = str_replace (ascii ''USER'') (ascii ''USER'') content;
                      content = re_sub content
                  in write_text pf file_path content w2)))"

definition replace_pii :: "platform \<Rightarrow> path \<Rightarrow> world \<Rightarrow> error option \<times> world" where
  "replace_pii pf file_path w =
     (case replace_pii_try pf file_path w of
        (None, w') \<Rightarrow> (None, w')
      | (Some e, w') \<Rightarrow>
          (print_fault w' (trace w') file_path e, log_event (Print file_path e) w'))"

section \<open>\<^verbatim>\<open>main\<close>\<close>

text \<open>
  \<^verbatim>\<open>os.system('git ls-files > tracked_files.txt')\<close>: the shell opens
  \<^verbatim>\<open>tracked_files.txt\<close> for writing, creating or truncating it, and git writes its
  listing there; \<open>listing\<close> stands for the bytes git prints. If the shell may not
  write the file the command fails and nothing changes; \<^verbatim>\<open>os.system\<close> returns the
  status, which the script drops.

  \<^verbatim>\<open>os.system('git add .')\<close>: unless it fails (its status is dropped too), git takes
  into the staging area the content of every file of the working directory that is
  tracked already or that no ignore rule covers, and drops the entries of files that
  are gone.

  \<open>process_lines\<close> is the loop: an exception that leaves \<^verbatim>\<open>replace_pii\<close> ends it,
  and \<^verbatim>\<open>main\<close> with it. \<open>main\<close> returns the exception that ends it, if any. The
  listing is decoded with the locale's encoding. Python reads and decodes it block by
  block while the loop runs; the model reads all lines when the file is opened. The
  two agree unless the run rewrites \<^verbatim>\<open>tracked_files.txt\<close> itself with other bytes (it
  can, when that file is tracked), or bytes that do not decode come after the first
  block: then Python has processed the lines of the earlier blocks when it raises, and
  the model none.

  \<open>exit_status\<close> is the status of the interpreter after \<^verbatim>\<open>main()\<close>: 120 when the
  last flush of standard output fails, else 1 when an exception ended \<^verbatim>\<open>main\<close>, else 0.
\<close>

definition tracked_files :: path where
  "tracked_files = ascii ''tracked_files.txt''"

definition git_ls_files :: "byte list \<Rightarrow> world \<Rightarrow> world" where
  "git_ls_files listing w =
     (let w' = log_event (System ''git ls-files > tracked_files.txt'') w in
      if io_fault w tracked_files W then w'
      else w'\<lparr>files := (files w')(tracked_files \<mapsto> listing)\<rparr>)"

definition git_add :: "world \<Rightarrow> world" where
  "git_add w =
     (let w' = log_event (System ''git add .'') w in
      if git_fault w then w'
      else w'\<lparr>staged :=
             (\<lambda>p. case files w p of
                    None \<Rightarrow> None
                  | Some bs \<Rightarrow> if ignored w p \<and> staged w p = None then None else Some bs)\<rparr>)"

definition read_lines :: "platform \<Rightarrow> path \<Rightarrow> world \<Rightarrow> (error + str list) \<times> world" where
  "read_lines pf p w =
     (case open_read p R w of
        (Inl e, w') \<Rightarrow> (Inl e, w')
      | (Inr bs, w') \<Rightarrow>
          (case locale_decode pf bs of
             None \<Rightarrow> (Inl UnicodeDecodeError, w')
           | Some s \<Rightarrow> (Inr (py_lines (nl_read s)), w')))"

fun process_lines :: "platform \<Rightarrow> str list \<Rightarrow> world \<Rightarrow> error option \<times> world" where
  "process_lines pf [] w = (None, w)"
| "process_lines pf (line # ls) w =
     (case replace_pii pf (strip line) w of
        (Some e, w') \<Rightarrow> (Some e, w')
      | (None, w') \<Rightarrow> process_lines pf ls w')"

definition main :: "platform \<Rightarrow> byte list \<Rightarrow> world \<Rightarrow> error option \<times> world" where
  "main pf listing w =
     (let w1 = git_ls_files listing w in
      case read_lines pf tracked_files w1 of
        (Inl e, w2) \<Rightarrow> (Some e, w2)
      | (Inr ls, w2) \<Rightarrow>
          (case process_lines pf ls w2 of
             (Some e, w3) \<Rightarrow> (Some e, w3)
           | (None, w3) \<Rightarrow> (None, git_add w3)))"


section \<open>The spec's vocabulary\<close>

text \<open>
  The spec names the bytes a text file may hold: the control characters 0x07, 0x08,
  0x09, 0x0A, 0x0C, 0x0D and 0x1B, and every byte from 0x20 to 0xFF but 0x7F. It names
  the exclusion rules as a set of path substrings, and calls a file eligible when it
  is neither binary nor excluded.
\<close>

definition allowed :: "byte \<Rightarrow> bool" where
  "allowed b =
     (b = 0x07 \<or> b = 0x08 \<or> b = 0x09 \<or> b = 0x0A \<or> b = 0x0C \<or> b = 0x0D \<or> b = 0x1B \<or>
      (0x20 \<le> b \<and> b \<le> 0xFF \<and> b \<noteq> 0x7F))"

definition exclusion_rules :: "str list" where
  "exclusion_rules =
     [ascii ''vendor/'', ascii ''node_modules/'', ascii ''.git/'', ascii ''.history/'',
      ascii ''dist/'']"

definition excluded :: "path \<Rightarrow> bool" where
  "excluded p = list_ex (\<lambda>r. sublist r p) exclusion_rules"

definition eligible :: "path \<Rightarrow> world \<Rightarrow> bool" where
  "eligible p w = (\<not> fst (is_binary p w) \<and> \<not> excluded p)"

text \<open>
  A world for the examples: the files given, nothing refused, nothing ignored, nothing
  staged, nothing done yet. \<open>bytes\<close> writes an ASCII text as the bytes of a file.
\<close>

definition bytes :: "string \<Rightarrow> byte list" where
  "bytes s = map of_char s"

definition world_of :: "(path \<times> byte list) list \<Rightarrow> world" where
  "world_of fs =
     \<lparr>files = map_of fs, io_fault = (\<lambda>p m. False), write_fault = (\<lambda>p. None),
      print_fault = (\<lambda>t p e. None), flush_fault = (\<lambda>t. False), git_fault = False,
      ignored = (\<lambda>p. False), staged = Map.empty, trace = []\<rparr>"

definition is_system :: "event \<Rightarrow> bool" where
  "is_system e = (case e of System c \<Rightarrow> True | _ \<Rightarrow> False)"

definition is_print :: "event \<Rightarrow> bool" where
  "is_print e = (case e of Print p x \<Rightarrow> True | _ \<Rightarrow> False)"

text \<open>
  The code points a \<^verbatim>\<open>str\<close> read from a file can hold: the Unicode scalar values.
\<close>

definition valid_cp :: "nat \<Rightarrow> bool" where
  "valid_cp c = (c < 0xD800 \<or> (0xDFFF < c \<and> c \<le> 0x10FFFF))"

section \<open>Example worlds\<close>

text \<open>
  A text with two occurrences of the user-path pattern that overlap. Writing B for
  the backslash, the text is \<^verbatim>\<open>PATH=C:BUsersBalice;C:BUsersBbobBbin\<close>: in it
  \<^verbatim>\<open>C:BUsersBalice;C:B\<close> is an occurrence (its segment is \<^verbatim>\<open>alice;C:\<close>) and
  \<^verbatim>\<open>C:BUsersBbobB\<close> is another, which begins inside the first.
\<close>

definition bob_path :: str where
  "bob_path = ascii ''C:'' @ backslash # ascii ''Users'' @ backslash # ascii ''bob'' @ [backslash]"

definition path_variable :: str where
  "path_variable =
     ascii ''PATH=C:'' @ backslash # ascii ''Users'' @ backslash # ascii ''alice;'' @ bob_path @
     ascii ''bin''"

text \<open>
  Two platforms, both with UTF-8 as the locale's encoding, and the files the examples
  below run on: a vendored file that holds a user path, a listing of two files the
  first of which is not UTF-8, a file with mixed line endings, a file with LF only, a
  working directory in which nothing may be written, one in which an old
  \<^verbatim>\<open>tracked_files.txt\<close> is read-only, a file with CR LF only, and a file that may
  be read but not written.
\<close>

definition posix_utf8 :: platform where
  "posix_utf8 = \<lparr>os_name = Posix, locale_decode = utf8_decode\<rparr>"


definition vendored_file :: "byte list" where
  "vendored_file = bytes ''home = C:'' @ [0x5C] @ bytes ''Users'' @ [0x5C] @ bytes ''bob'' @ [0x5C]"

definition bad_listing :: "byte list" where
  "bad_listing = bytes ''bad.txt'' @ [0x0A] @ bytes ''ok.txt'' @ [0x0A]"

definition bad_world :: world where
  "bad_world = world_of [(ascii ''bad.txt'', [0x61, 0xE9]), (ascii ''ok.txt'', bytes ''hi'')]"




definition readonly_world :: world where
  "readonly_world = (world_of [(ascii ''a.txt'', bytes ''hi'')])\<lparr>io_fault := \<lambda>p m. m = W\<rparr>"

definition stale_world :: world where
  "stale_world =
     (world_of [(tracked_files, bytes ''old.txt'' @ [0x0A]), (ascii ''new.txt'', bytes ''hi'')])
       \<lparr>io_fault := \<lambda>p m. p = tracked_files \<and> m = W\<rparr>"








definition ignoring_world :: world where
  "ignoring_world = bad_world\<lparr>ignored := \<lambda>p. p = tracked_files, staged := files bad_world\<rparr>"

definition no_index_world :: world where
  "no_index_world = bad_world\<lparr>git_fault := True, staged := files bad_world\<rparr>"

section \<open>Properties of the text functions\<close>

lemma match_at_Some_iff:
  "match_at s = Some rest \<longleftrightarrow>
     (\<exists>seg. s = users_prefix @ seg @ backslash # rest \<and> seg \<noteq> [] \<and> backslash \<notin> set seg)"
proof
  assume a: "match_at s = Some rest"
  let ?r = "drop (length users_prefix) s"
  let ?seg = "takeWhile (\<lambda>c. c \<noteq> backslash) ?r"
  let ?d = "dropWhile (\<lambda>c. c \<noteq> backslash) ?r"
  from a have p: "prefix users_prefix s" and seg: "?seg \<noteq> []" and d: "?d \<noteq> []" and rest: "rest = tl ?d"
    by (auto simp: match_at_def Let_def split: if_splits)
  from d have "hd ?d = backslash" using hd_dropWhile[of "\<lambda>c. c \<noteq> backslash" ?r] by auto
  with d rest have d': "?d = backslash # rest" by (cases ?d) auto
  from p have "s = users_prefix @ ?r" by (auto simp: prefix_def)
  also have "?r = ?seg @ ?d" by simp
  finally have "s = users_prefix @ ?seg @ backslash # rest" using d' by simp
  moreover have "backslash \<notin> set ?seg" by (auto dest: set_takeWhileD)
  ultimately show "\<exists>seg. s = users_prefix @ seg @ backslash # rest \<and> seg \<noteq> [] \<and> backslash \<notin> set seg"
    using seg by blast
next
  assume "\<exists>seg. s = users_prefix @ seg @ backslash # rest \<and> seg \<noteq> [] \<and> backslash \<notin> set seg"
  then obtain seg where s: "s = users_prefix @ seg @ backslash # rest" and ne: "seg \<noteq> []"
    and nb: "backslash \<notin> set seg" by blast
  from nb have t: "takeWhile (\<lambda>c. c \<noteq> backslash) (seg @ backslash # rest) = seg"
    by (induction seg) auto
  from nb have d: "dropWhile (\<lambda>c. c \<noteq> backslash) (seg @ backslash # rest) = backslash # rest"
    by (induction seg) auto
  show "match_at s = Some rest"
    using ne by (simp add: match_at_def s t d)
qed

lemma match_at_head: "c \<noteq> 67 \<Longrightarrow> match_at (c # cs) = None"
  by (simp add: match_at_def users_prefix_def ascii_def)

lemma re_sub_no_match: "\<not> has_match s \<Longrightarrow> re_sub s = s"
  by (induction s) auto

lemma re_sub_head:
  assumes "re_sub s = a # out" and "a \<noteq> 47"
  shows "\<exists>s'. s = a # s' \<and> re_sub s' = out \<and> match_at s = None"
proof (cases s)
  case Nil
  with assms show ?thesis by simp
next
  case (Cons c cs)
  with assms show ?thesis
    by (cases "match_at (c # cs)") (auto simp: user_home_def ascii_def)
qed

lemma re_sub_first_backslash:
  "re_sub s = seg @ backslash # out \<Longrightarrow> backslash \<notin> set seg \<Longrightarrow>
   \<exists>seg2 rest2. s = seg2 @ backslash # rest2 \<and> backslash \<notin> set seg2 \<and> (seg2 = [] \<longrightarrow> seg = [])"
proof (induction s arbitrary: seg out rule: re_sub.induct)
  case 1
  then show ?case by simp
next
  case (2 c cs)
  show ?case
  proof (cases "match_at (c # cs)")
    case (Some rest)
    then obtain sg where "c # cs = users_prefix @ sg @ backslash # rest"
      by (auto simp: match_at_Some_iff)
    then have "c # cs = ascii ''C:'' @ backslash # (ascii ''Users'' @ [backslash] @ sg @ backslash # rest)"
      by (simp add: users_prefix_def)
    moreover have "backslash \<notin> set (ascii ''C:'')" "ascii ''C:'' \<noteq> []"
      by (simp_all add: ascii_def backslash_def)
    ultimately show ?thesis by blast
  next
    case None
    with "2.prems" have eq: "c # re_sub cs = seg @ backslash # out" by simp
    show ?thesis
    proof (cases seg)
      case Nil
      with eq have "c = backslash" by simp
      then have "c # cs = [] @ backslash # cs \<and> backslash \<notin> set ([]::str)" by simp
      with Nil show ?thesis by blast
    next
      case (Cons a seg')
      with eq have c: "c = a" and r: "re_sub cs = seg' @ backslash # out" by simp_all
      from Cons "2.prems"(2) have nb: "backslash \<notin> set seg'" and ab: "a \<noteq> backslash" by auto
      from "2.IH"(1)[OF None r nb] obtain seg2 rest2 where
        "cs = seg2 @ backslash # rest2" "backslash \<notin> set seg2" by blast
      then have "c # cs = (c # seg2) @ backslash # rest2 \<and> backslash \<notin> set (c # seg2)"
        using c ab by simp
      then show ?thesis by blast
    qed
  qed
qed

lemma match_at_re_sub_tail:
  assumes "match_at (c # cs) = None"
  shows "match_at (c # re_sub cs) = None"
proof (rule ccontr)
  assume "match_at (c # re_sub cs) \<noteq> None"
  then obtain rest where "match_at (c # re_sub cs) = Some rest" by auto
  then obtain seg where eq: "c # re_sub cs = users_prefix @ seg @ backslash # rest"
    and ne: "seg \<noteq> []" and nb: "backslash \<notin> set seg"
    by (auto simp: match_at_Some_iff)
  from eq have c: "c = 67" and r0: "re_sub cs = 58 # 92 # 85 # 115 # 101 # 114 # 115 # 92 # seg @ backslash # rest"
    by (simp_all add: users_prefix_def ascii_def backslash_def)
  from re_sub_head[OF r0] obtain s1 where s1: "cs = 58 # s1" and r1: "re_sub s1 = 92 # 85 # 115 # 101 # 114 # 115 # 92 # seg @ backslash # rest" by auto
  from re_sub_head[OF r1] obtain s2 where s2: "s1 = 92 # s2" and r2: "re_sub s2 = 85 # 115 # 101 # 114 # 115 # 92 # seg @ backslash # rest" by auto
  from re_sub_head[OF r2] obtain s3 where s3: "s2 = 85 # s3" and r3: "re_sub s3 = 115 # 101 # 114 # 115 # 92 # seg @ backslash # rest" by auto
  from re_sub_head[OF r3] obtain s4 where s4: "s3 = 115 # s4" and r4: "re_sub s4 = 101 # 114 # 115 # 92 # seg @ backslash # rest" by auto
  from re_sub_head[OF r4] obtain s5 where s5: "s4 = 101 # s5" and r5: "re_sub s5 = 114 # 115 # 92 # seg @ backslash # rest" by auto
  from re_sub_head[OF r5] obtain s6 where s6: "s5 = 114 # s6" and r6: "re_sub s6 = 115 # 92 # seg @ backslash # rest" by auto
  from re_sub_head[OF r6] obtain s7 where s7: "s6 = 115 # s7" and r7: "re_sub s7 = 92 # seg @ backslash # rest" by auto
  from re_sub_head[OF r7] obtain s8 where s8: "s7 = 92 # s8" and r8: "re_sub s8 = seg @ backslash # rest" by auto
  from re_sub_first_backslash[OF r8 nb] ne obtain seg2 rest2 where
    "s8 = seg2 @ backslash # rest2" "backslash \<notin> set seg2" "seg2 \<noteq> []" by blast
  then have "c # cs = users_prefix @ seg2 @ backslash # rest2 \<and> seg2 \<noteq> [] \<and> backslash \<notin> set seg2"
    using c s1 s2 s3 s4 s5 s6 s7 s8 by (simp add: users_prefix_def ascii_def backslash_def)
  then have "match_at (c # cs) = Some rest2" unfolding match_at_Some_iff by blast
  with assms show False by simp
qed

lemma has_match_user_home: "has_match (user_home @ s) = has_match s"
  by (simp add: user_home_def ascii_def match_at_head)

lemma no_match_re_sub: "\<not> has_match (re_sub s)"
proof (induction s rule: re_sub.induct)
  case 1
  then show ?case by simp
next
  case (2 c cs)
  show ?case
  proof (cases "match_at (c # cs)")
    case None
    with 2 show ?thesis by (simp add: match_at_re_sub_tail)
  next
    case (Some rest)
    with 2 show ?thesis by (simp add: has_match_user_home)
  qed
qed

lemma re_sub_idem: "re_sub (re_sub s) = re_sub s"
  by (rule re_sub_no_match) (rule no_match_re_sub)

lemma replace_scan_eq: "new = old \<Longrightarrow> replace_scan old new s = s"
proof (induction old new s rule: replace_scan.induct)
  case (1 old new)
  then show ?case by simp
next
  case (2 old new c cs)
  show ?case
  proof (cases "old \<noteq> [] \<and> prefix old (c # cs)")
    case True
    then have "old @ drop (length old) (c # cs) = c # cs"
      by (metis append_eq_conv_conj prefix_def)
    with True 2 show ?thesis by simp
  next
    case False
    with 2 show ?thesis by auto
  qed
qed

lemma concat_singletons: "concat (map (\<lambda>c. [c]) s) = s"
  by (induction s) simp_all

lemma str_replace_id: "str_replace old old s = s"
  by (simp add: str_replace_def replace_scan_eq concat_singletons)

lemma redact_re_sub: "redact s = re_sub s"
  by (simp add: redact_def str_replace_id)

lemma user_path_iff:
  "user_path m \<longleftrightarrow>
     (\<exists>seg. m = users_prefix @ seg @ [backslash] \<and> seg \<noteq> [] \<and> backslash \<notin> set seg)"
proof
  assume u: "user_path m"
  let ?t = "drop (length users_prefix) m"
  from u have p: "prefix users_prefix m" and l: "2 \<le> length ?t" and b: "last ?t = backslash"
    and n: "backslash \<notin> set (butlast ?t)"
    by (simp_all add: user_path_def Let_def)
  from l have ne: "?t \<noteq> []" by auto
  from p have "m = users_prefix @ ?t" by (auto simp: prefix_def)
  also from ne b have "?t = butlast ?t @ [backslash]"
    using append_butlast_last_id [of ?t] by simp
  finally have "m = users_prefix @ butlast ?t @ [backslash]" .
  moreover from l have "butlast ?t \<noteq> []"
    by (metis One_nat_def Suc_1 length_butlast list.size(3) not_less_eq_eq diff_is_0_eq)
  ultimately show "\<exists>seg. m = users_prefix @ seg @ [backslash] \<and> seg \<noteq> [] \<and> backslash \<notin> set seg"
    using n by blast
next
  assume "\<exists>seg. m = users_prefix @ seg @ [backslash] \<and> seg \<noteq> [] \<and> backslash \<notin> set seg"
  then obtain seg where "m = users_prefix @ seg @ [backslash]" "seg \<noteq> []" "backslash \<notin> set seg"
    by blast
  then show "user_path m"
    by (cases seg) (simp_all add: user_path_def Let_def)
qed

lemma match_at_user_path:
  "match_at s = Some rest \<longleftrightarrow> (\<exists>m. user_path m \<and> s = m @ rest)"
  unfolding match_at_Some_iff user_path_iff by auto

lemma match_at_Nil: "match_at [] = None"
  by (simp add: match_at_def users_prefix_def)

lemma has_match_append: "has_match s \<Longrightarrow> has_match (u @ s)"
  by (induction u) simp_all

lemma match_at_has_match: "match_at s = Some rest \<Longrightarrow> has_match s"
  by (cases s) (simp_all add: match_at_Nil)

lemma has_match_iff: "has_match s \<longleftrightarrow> (\<exists>u m v. s = u @ m @ v \<and> user_path m)"
proof
  show "has_match s \<Longrightarrow> \<exists>u m v. s = u @ m @ v \<and> user_path m"
  proof (induction s)
    case Nil
    then show ?case by simp
  next
    case (Cons c cs)
    show ?case
    proof (cases "match_at (c # cs)")
      case (Some rest)
      then obtain m where "user_path m" "c # cs = m @ rest"
        by (auto simp: match_at_user_path)
      then have "c # cs = [] @ m @ rest \<and> user_path m" by simp
      then show ?thesis by blast
    next
      case None
      with Cons.prems have "has_match cs" by simp
      with Cons.IH obtain u m v where "cs = u @ m @ v" "user_path m" by blast
      then have "c # cs = (c # u) @ m @ v \<and> user_path m" by simp
      then show ?thesis by blast
    qed
  qed
next
  assume "\<exists>u m v. s = u @ m @ v \<and> user_path m"
  then obtain u m v where s: "s = u @ m @ v" and "user_path m" by blast
  then have "match_at (m @ v) = Some v"
    by (auto simp: match_at_user_path)
  then have "has_match (m @ v)"
    by (rule match_at_has_match)
  then show "has_match s"
    unfolding s by (rule has_match_append)
qed

lemma user_path_Cons: "user_path m \<Longrightarrow> \<exists>t. m = 67 # t"
  by (auto simp: user_path_iff users_prefix_def ascii_def)

text \<open>
  Occurrences are taken from the left, and the scan goes on behind each match: the
  text before the leftmost occurrence is kept, the occurrence is replaced, and the
  scan goes on with what follows it.
\<close>

lemma re_sub_leftmost:
  assumes "user_path m"
    and "\<forall>u' m' v'. u @ m @ v = u' @ m' @ v' \<and> user_path m' \<longrightarrow> length u \<le> length u'"
  shows "re_sub (u @ m @ v) = u @ user_home @ re_sub v"
  using assms(2)
proof (induction u)
  case Nil
  from assms(1) have "match_at (m @ v) = Some v"
    by (auto simp: match_at_user_path)
  moreover from assms(1) obtain t where "m = 67 # t"
    by (auto dest: user_path_Cons)
  ultimately show ?case
    by simp
next
  case (Cons c u)
  have n: "match_at (c # u @ m @ v) = None"
  proof (cases "match_at (c # u @ m @ v)")
    case (Some rest)
    then obtain m' where "user_path m'" and "c # u @ m @ v = m' @ rest"
      by (auto simp: match_at_user_path)
    then have "(c # u) @ m @ v = [] @ m' @ rest \<and> user_path m'"
      by simp
    with Cons.prems have "length (c # u) \<le> length ([] :: str)"
      by blast
    then show ?thesis
      by simp
  qed simp
  have "\<forall>u' m' v'. u @ m @ v = u' @ m' @ v' \<and> user_path m' \<longrightarrow> length u \<le> length u'"
  proof (intro allI impI)
    fix u' m' v'
    assume "u @ m @ v = u' @ m' @ v' \<and> user_path m'"
    then have "(c # u) @ m @ v = (c # u') @ m' @ v' \<and> user_path m'"
      by simp
    with Cons.prems have "length (c # u) \<le> length (c # u')"
      by blast
    then show "length u \<le> length u'"
      by simp
  qed
  with Cons.IH n show ?case
    by simp
qed

section \<open>Properties of the UTF-8 functions\<close>

lemma split2:
  fixes h a :: nat
  assumes "a < 64"
  shows "(h * 64 + a) div 64 = h" and "(h * 64 + a) mod 64 = a"
  using assms by simp_all

lemma split3:
  fixes h a b :: nat
  assumes "a < 64" "b < 64"
  shows "(h * 4096 + a * 64 + b) div 4096 = h"
    and "(h * 4096 + a * 64 + b) div 64 mod 64 = a"
    and "(h * 4096 + a * 64 + b) mod 64 = b"
proof -
  have e: "h * 4096 + a * 64 + b = (h * 64 + a) * 64 + b"
    by simp
  have d: "(h * 4096 + a * 64 + b) div 64 = h * 64 + a"
    unfolding e using assms(2) by (rule split2)
  show "(h * 4096 + a * 64 + b) div 64 mod 64 = a"
    unfolding d using assms(1) by (rule split2)
  show "(h * 4096 + a * 64 + b) mod 64 = b"
    unfolding e using assms(2) by (rule split2)
  have "(h * 4096 + a * 64 + b) div 4096 = (h * 4096 + a * 64 + b) div 64 div 64"
    by (simp add: div_mult2_eq [symmetric])
  also have "\<dots> = h"
    unfolding d using assms(1) by (rule split2)
  finally show "(h * 4096 + a * 64 + b) div 4096 = h" .
qed

lemma split4:
  fixes h a b c :: nat
  assumes "a < 64" "b < 64" "c < 64"
  shows "(h * 262144 + a * 4096 + b * 64 + c) div 262144 = h"
    and "(h * 262144 + a * 4096 + b * 64 + c) div 4096 mod 64 = a"
    and "(h * 262144 + a * 4096 + b * 64 + c) div 64 mod 64 = b"
    and "(h * 262144 + a * 4096 + b * 64 + c) mod 64 = c"
proof -
  have e: "h * 262144 + a * 4096 + b * 64 + c = (h * 4096 + a * 64 + b) * 64 + c"
    by simp
  have d1: "(h * 262144 + a * 4096 + b * 64 + c) div 64 = h * 4096 + a * 64 + b"
    unfolding e using assms(3) by (rule split2)
  show "(h * 262144 + a * 4096 + b * 64 + c) mod 64 = c"
    unfolding e using assms(3) by (rule split2)
  show "(h * 262144 + a * 4096 + b * 64 + c) div 64 mod 64 = b"
    unfolding d1 using assms(1,2) by (rule split3)
  have "(h * 262144 + a * 4096 + b * 64 + c) div 4096
      = (h * 262144 + a * 4096 + b * 64 + c) div 64 div 64"
    by (simp add: div_mult2_eq [symmetric])
  then have d2: "(h * 262144 + a * 4096 + b * 64 + c) div 4096 = (h * 4096 + a * 64 + b) div 64"
    unfolding d1 .
  show "(h * 262144 + a * 4096 + b * 64 + c) div 4096 mod 64 = a"
    unfolding d2 using assms(1,2) by (rule split3)
  have "(h * 262144 + a * 4096 + b * 64 + c) div 262144
      = (h * 262144 + a * 4096 + b * 64 + c) div 64 div 4096"
    by (simp add: div_mult2_eq [symmetric])
  also have "\<dots> = h"
    unfolding d1 using assms(1,2) by (rule split3)
  finally show "(h * 262144 + a * 4096 + b * 64 + c) div 262144 = h" .
qed

lemma utf8_decode_cp_cases:
  assumes "utf8_decode_cp (b0 # bs) = Some (cp, n)"
  shows "(unat b0 < 0x80 \<and> cp = unat b0 \<and> n = 1)
       \<or> (0xC2 \<le> unat b0 \<and> unat b0 \<le> 0xDF \<and>
            (\<exists>b1 r. bs = b1 # r \<and> is_cont b1 \<and> n = 2 \<and>
               cp = (unat b0 - 0xC0) * 64 + (unat b1 - 0x80)))
       \<or> (0xE0 \<le> unat b0 \<and> unat b0 \<le> 0xEF \<and>
            (\<exists>b1 b2 r. bs = b1 # b2 # r \<and> is_cont b1 \<and> is_cont b2 \<and> n = 3 \<and>
               cp = (unat b0 - 0xE0) * 4096 + (unat b1 - 0x80) * 64 + (unat b2 - 0x80) \<and>
               0x800 \<le> cp \<and> \<not> (0xD800 \<le> cp \<and> cp \<le> 0xDFFF)))
       \<or> (0xF0 \<le> unat b0 \<and> unat b0 \<le> 0xF4 \<and>
            (\<exists>b1 b2 b3 r. bs = b1 # b2 # b3 # r \<and> is_cont b1 \<and> is_cont b2 \<and> is_cont b3 \<and>
               n = 4 \<and>
               cp = (unat b0 - 0xF0) * 262144 + (unat b1 - 0x80) * 4096
                     + (unat b2 - 0x80) * 64 + (unat b3 - 0x80) \<and>
               0x10000 \<le> cp \<and> cp \<le> 0x10FFFF))"
proof -
  consider "unat b0 < 0x80" | "0xC2 \<le> unat b0 \<and> unat b0 \<le> 0xDF"
    | "0xE0 \<le> unat b0 \<and> unat b0 \<le> 0xEF" | "0xF0 \<le> unat b0 \<and> unat b0 \<le> 0xF4"
    | "\<not> unat b0 < 0x80" "\<not> (0xC2 \<le> unat b0 \<and> unat b0 \<le> 0xDF)"
      "\<not> (0xE0 \<le> unat b0 \<and> unat b0 \<le> 0xEF)" "\<not> (0xF0 \<le> unat b0 \<and> unat b0 \<le> 0xF4)"
    by blast
  then show ?thesis
  proof cases
    case 1
    with assms show ?thesis by (simp add: Let_def)
  next
    case 2
    then have "\<not> unat b0 < 0x80" by simp
    with 2 assms show ?thesis
      by (cases bs) (simp_all add: Let_def split: if_splits)
  next
    case 3
    then have "\<not> unat b0 < 0x80" "\<not> (0xC2 \<le> unat b0 \<and> unat b0 \<le> 0xDF)" by simp_all
    with 3 assms show ?thesis
      by (simp add: Let_def split: list.splits if_splits)
  next
    case 4
    then have "\<not> unat b0 < 0x80" "\<not> (0xC2 \<le> unat b0 \<and> unat b0 \<le> 0xDF)"
      "\<not> (0xE0 \<le> unat b0 \<and> unat b0 \<le> 0xEF)" by simp_all
    with 4 assms show ?thesis
      by (simp add: Let_def split: list.splits if_splits)
  next
    case 5
    with assms show ?thesis by (simp add: Let_def)
  qed
qed

lemma utf8_cp_roundtrip:
  assumes "utf8_decode_cp (b0 # bs) = Some (cp, n)"
  shows "utf8_encode_cp cp = Some (take n (b0 # bs)) \<and> 0 < n"
  using utf8_decode_cp_cases [OF assms]
proof (elim disjE conjE exE)
  assume "unat b0 < 0x80" "cp = unat b0" "n = 1"
  then show ?thesis
    by (simp add: utf8_encode_cp_def)
next
  fix b1 r
  assume b: "0xC2 \<le> unat b0" "unat b0 \<le> 0xDF" "is_cont b1"
    and bs: "bs = b1 # r" and n: "n = 2"
    and cp: "cp = (unat b0 - 0xC0) * 64 + (unat b1 - 0x80)"
  define h a where "h = unat b0 - 0xC0" and "a = unat b1 - 0x80"
  from b have a: "a < 64" and h: "2 \<le> h" "h \<le> 31"
    and orig: "0xC0 + h = unat b0" "0x80 + a = unat b1"
    by (auto simp: h_def a_def is_cont_def)
  have cp': "cp = h * 64 + a"
    by (simp add: cp h_def a_def)
  from a h have range: "\<not> cp < 0x80" "cp < 0x800"
    unfolding cp' by simp_all
  have "cp div 64 = h" "cp mod 64 = a"
    unfolding cp' using a by (rule split2)+
  with range orig show ?thesis
    by (simp add: utf8_encode_cp_def bs n)
next
  fix b1 b2 r
  assume b: "0xE0 \<le> unat b0" "unat b0 \<le> 0xEF" "is_cont b1" "is_cont b2"
    and bs: "bs = b1 # b2 # r" and n: "n = 3"
    and cp: "cp = (unat b0 - 0xE0) * 4096 + (unat b1 - 0x80) * 64 + (unat b2 - 0x80)"
    and lo: "0x800 \<le> cp" and sur: "\<not> (0xD800 \<le> cp \<and> cp \<le> 0xDFFF)"
  define h a c where "h = unat b0 - 0xE0" and "a = unat b1 - 0x80" and "c = unat b2 - 0x80"
  from b have a: "a < 64" "c < 64" and h: "h \<le> 15"
    and orig: "0xE0 + h = unat b0" "0x80 + a = unat b1" "0x80 + c = unat b2"
    by (auto simp: h_def a_def c_def is_cont_def)
  have cp': "cp = h * 4096 + a * 64 + c"
    by (simp add: cp h_def a_def c_def)
  from a h have hi: "cp < 0x10000"
    unfolding cp' by simp
  have "cp div 4096 = h" "cp div 64 mod 64 = a" "cp mod 64 = c"
    unfolding cp' using a by (rule split3)+
  with lo hi sur orig show ?thesis
    by (simp add: utf8_encode_cp_def bs n)
next
  fix b1 b2 b3 r
  assume b: "0xF0 \<le> unat b0" "unat b0 \<le> 0xF4" "is_cont b1" "is_cont b2" "is_cont b3"
    and bs: "bs = b1 # b2 # b3 # r" and n: "n = 4"
    and cp: "cp = (unat b0 - 0xF0) * 262144 + (unat b1 - 0x80) * 4096
                   + (unat b2 - 0x80) * 64 + (unat b3 - 0x80)"
    and lo: "0x10000 \<le> cp" and hi: "cp \<le> 0x10FFFF"
  define h a c d where "h = unat b0 - 0xF0" and "a = unat b1 - 0x80"
    and "c = unat b2 - 0x80" and "d = unat b3 - 0x80"
  from b have a: "a < 64" "c < 64" "d < 64"
    and orig: "0xF0 + h = unat b0" "0x80 + a = unat b1" "0x80 + c = unat b2" "0x80 + d = unat b3"
    by (auto simp: h_def a_def c_def d_def is_cont_def)
  have cp': "cp = h * 262144 + a * 4096 + c * 64 + d"
    by (simp add: cp h_def a_def c_def d_def)
  have "cp div 262144 = h" "cp div 4096 mod 64 = a" "cp div 64 mod 64 = c" "cp mod 64 = d"
    unfolding cp' using a by (rule split4)+
  with lo hi orig show ?thesis
    by (simp add: utf8_encode_cp_def bs n)
qed

lemma utf8_roundtrip: "utf8_decode bs = Some s \<Longrightarrow> utf8_encode s = Some bs"
proof (induction bs arbitrary: s rule: utf8_decode.induct)
  case 1
  then show ?case by simp
next
  case (2 b bs)
  from "2.prems" obtain cp n s' where d: "utf8_decode_cp (b # bs) = Some (cp, n)"
    and s': "utf8_decode (drop (n - 1) bs) = Some s'" and s: "s = cp # s'"
    by (auto split: option.splits)
  from utf8_cp_roundtrip [OF d] have e: "utf8_encode_cp cp = Some (take n (b # bs))" and n: "0 < n"
    by simp_all
  from "2.IH" [OF d refl s'] have "utf8_encode s' = Some (drop (n - 1) bs)" .
  moreover from n have "take n (b # bs) @ drop (n - 1) bs = b # bs"
    by (cases n) simp_all
  ultimately show ?case
    by (simp add: s e)
qed


section \<open>Properties of the file operations\<close>

lemma log_event_simps [simp]:
  "files (log_event e w) = files w"
  "io_fault (log_event e w) = io_fault w"
  "write_fault (log_event e w) = write_fault w"
  "print_fault (log_event e w) = print_fault w"
  "flush_fault (log_event e w) = flush_fault w"
  "git_fault (log_event e w) = git_fault w"
  "ignored (log_event e w) = ignored w"
  "staged (log_event e w) = staged w"
  "trace (log_event e w) = trace w @ [e]"
  by (simp_all add: log_event_def)

lemma snd_open_read [simp]: "snd (open_read p m w) = log_event (Open p m) w"
  by (simp add: open_read_def Let_def split: option.splits)

lemma open_read_eq:
  "open_read p m w =
     (case files w p of
        None \<Rightarrow> (Inl OSError, log_event (Open p m) w)
      | Some bs \<Rightarrow>
          if io_fault w p m then (Inl OSError, log_event (Open p m) w)
          else (Inr bs, log_event (Open p m) w))"
  by (simp add: open_read_def Let_def split: option.splits)

lemma textchars_allowed: "b \<in> textchars \<longleftrightarrow> allowed b"
  by (auto simp: textchars_def allowed_def)

lemma is_binary_string_iff: "is_binary_string bs \<longleftrightarrow> (\<exists>b\<in>set bs. \<not> allowed b)"
  by (auto simp: is_binary_string_def filter_empty_conv textchars_allowed)

lemma is_binary_try_eq:
  "is_binary_try p w =
     (case files w p of
        None \<Rightarrow> (Inl OSError, log_event (Open p RB) w)
      | Some bs \<Rightarrow>
          if io_fault w p RB then (Inl OSError, log_event (Open p RB) w)
          else (Inr (is_binary_string (take 1024 bs)), log_event (Open p RB) w))"
  by (simp add: is_binary_try_def open_read_eq split: option.splits)

lemma is_binary_eq:
  "is_binary p w =
     (case files w p of
        None \<Rightarrow> (True, log_event (Open p RB) w)
      | Some bs \<Rightarrow> (io_fault w p RB \<or> is_binary_string (take 1024 bs), log_event (Open p RB) w))"
  by (simp add: is_binary_def is_binary_try_eq split: option.splits)

lemma snd_is_binary [simp]: "snd (is_binary p w) = log_event (Open p RB) w"
  by (simp add: is_binary_eq split: option.splits)

lemma excluded_iff:
  "excluded p \<longleftrightarrow>
     sublist (ascii ''vendor/'') p \<or> sublist (ascii ''node_modules/'') p \<or>
     sublist (ascii ''.git/'') p \<or> sublist (ascii ''.history/'') p \<or>
     sublist (ascii ''dist/'') p"
  by (simp add: excluded_def exclusion_rules_def)

lemma write_text_eq:
  "write_text pf p s w =
     (if io_fault w p W then (Some OSError, log_event (Open p W) w)
      else case utf8_encode (nl_write (linesep pf) s) of
             None \<Rightarrow> (Some UnicodeEncodeError, (log_event (Open p W) w)\<lparr>files := (files w)(p \<mapsto> [])\<rparr>)
           | Some bs \<Rightarrow>
               (case write_fault w p of
                  None \<Rightarrow> (None, (log_event (Open p W) w)\<lparr>files := (files w)(p \<mapsto> bs)\<rparr>)
                | Some n \<Rightarrow>
                    (Some OSError, (log_event (Open p W) w)\<lparr>files := (files w)(p \<mapsto> take n bs)\<rparr>)))"
  by (simp add: write_text_def Let_def split: option.splits)

lemma read_text_eq:
  "read_text p w =
     (case files w p of
        None \<Rightarrow> (Inl OSError, log_event (Open p R) w)
      | Some bs \<Rightarrow>
          if io_fault w p R then (Inl OSError, log_event (Open p R) w)
          else case utf8_decode bs of
                 None \<Rightarrow> (Inl UnicodeDecodeError, log_event (Open p R) w)
               | Some s \<Rightarrow> (Inr (nl_read s), log_event (Open p R) w))"
  by (simp add: read_text_def open_read_eq split: option.splits)

text \<open>The body of \<^verbatim>\<open>replace_pii\<close>, branch by branch.\<close>

lemma replace_pii_try_skip:
  "fst (is_binary p w) \<or> excluded p \<Longrightarrow> replace_pii_try pf p w = (None, log_event (Open p RB) w)"
  by (cases "is_binary p w") (auto simp: replace_pii_try_def excluded_iff dest: arg_cong [where f = snd])

lemma replace_pii_try_eligible:
  assumes "eligible p w" and "files w p = Some bs"
  shows "replace_pii_try pf p w =
     (if io_fault w p R then (Some OSError, log_event (Open p R) (log_event (Open p RB) w))
      else case utf8_decode bs of
             None \<Rightarrow> (Some UnicodeDecodeError, log_event (Open p R) (log_event (Open p RB) w))
           | Some s \<Rightarrow>
               write_text pf p (re_sub (nl_read s)) (log_event (Open p R) (log_event (Open p RB) w)))"
proof -
  from assms have b: "is_binary p w = (False, log_event (Open p RB) w)"
    by (simp add: eligible_def is_binary_eq)
  from assms have e: "\<not> (sublist (ascii ''vendor/'') p \<or> sublist (ascii ''node_modules/'') p \<or>
     sublist (ascii ''.git/'') p \<or> sublist (ascii ''.history/'') p \<or>
     sublist (ascii ''dist/'') p)"
    by (simp add: eligible_def excluded_iff)
  show ?thesis
    using e assms(2)
    by (simp add: replace_pii_try_def b read_text_eq str_replace_id split: option.splits)
qed

lemma eligible_file: "eligible p w \<Longrightarrow> \<exists>bs. files w p = Some bs"
  by (cases "files w p") (simp_all add: eligible_def is_binary_eq)

lemma utf8_encode_cp_valid: "(\<exists>bs. utf8_encode_cp c = Some bs) \<longleftrightarrow> valid_cp c"
  by (auto simp: utf8_encode_cp_def valid_cp_def)

lemma utf8_encode_valid: "(\<exists>bs. utf8_encode s = Some bs) \<longleftrightarrow> (\<forall>c\<in>set s. valid_cp c)"
proof (induction s)
  case Nil
  then show ?case by simp
next
  case (Cons c s)
  show ?case
  proof (cases "utf8_encode_cp c")
    case None
    with utf8_encode_cp_valid [of c] show ?thesis by simp
  next
    case (Some a)
    with utf8_encode_cp_valid [of c] have "valid_cp c" by auto
    with Some Cons show ?thesis by auto
  qed
qed

lemma utf8_decode_valid: "utf8_decode bs = Some s \<Longrightarrow> \<forall>c\<in>set s. valid_cp c"
  using utf8_encode_valid [of s] by (auto dest: utf8_roundtrip)

lemma set_nl_read: "set (nl_read s) \<subseteq> insert 10 (set s)"
  by (induction s rule: nl_read.induct) auto

lemma set_nl_write: "set (nl_write sep s) \<subseteq> set sep \<union> set s"
  by (auto simp: nl_write_def split: if_splits)

lemma set_re_sub: "set (re_sub s) \<subseteq> set user_home \<union> set s"
proof (induction s rule: re_sub.induct)
  case 1
  then show ?case by simp
next
  case (2 c cs)
  show ?case
  proof (cases "match_at (c # cs)")
    case None
    with 2 show ?thesis by auto
  next
    case (Some rest)
    then obtain seg where "c # cs = users_prefix @ seg @ backslash # rest"
      by (auto simp: match_at_Some_iff)
    then have "set (c # cs) = set (users_prefix @ seg @ backslash # rest)"
      by simp
    then have "set rest \<subseteq> set (c # cs)"
      by auto
    with Some 2 show ?thesis by auto
  qed
qed

lemma valid_linesep: "\<forall>c\<in>set (linesep pf). valid_cp c"
  by (cases "os_name pf") (simp_all add: linesep_def valid_cp_def)

lemma valid_user_home: "\<forall>c\<in>set user_home. valid_cp c"
  by (simp add: user_home_def ascii_def valid_cp_def)

lemma rewritten_text_encodes:
  assumes "utf8_decode bs = Some s"
  shows "\<exists>bs'. utf8_encode (nl_write (linesep pf) (re_sub (nl_read s))) = Some bs'"
proof -
  have "valid_cp 10" by (simp add: valid_cp_def)
  with utf8_decode_valid [OF assms] set_nl_read [of s] have "\<forall>c\<in>set (nl_read s). valid_cp c"
    by auto
  with set_re_sub [of "nl_read s"] valid_user_home have "\<forall>c\<in>set (re_sub (nl_read s)). valid_cp c"
    by auto
  with set_nl_write [of "linesep pf" "re_sub (nl_read s)"] valid_linesep [of pf]
  have "\<forall>c\<in>set (nl_write (linesep pf) (re_sub (nl_read s))). valid_cp c"
    by auto
  then show ?thesis
    by (simp add: utf8_encode_valid)
qed


text \<open>What \<^verbatim>\<open>replace_pii\<close> does to a file it does not skip.\<close>

lemma replace_pii_try_eligible_eq:
  assumes "eligible p w" and "files w p = Some bs"
  shows "replace_pii_try pf p w =
     (let w2 = log_event (Open p R) (log_event (Open p RB) w);
          w3 = log_event (Open p W) w2
      in if io_fault w p R then (Some OSError, w2)
         else case utf8_decode bs of
                None \<Rightarrow> (Some UnicodeDecodeError, w2)
              | Some s \<Rightarrow>
                  if io_fault w p W then (Some OSError, w3)
                  else
                    (case write_fault w p of
                       None \<Rightarrow>
                         (None, w3\<lparr>files := (files w)(p \<mapsto>
                            the (utf8_encode (nl_write (linesep pf) (re_sub (nl_read s)))))\<rparr>)
                     | Some n \<Rightarrow>
                         (Some OSError, w3\<lparr>files := (files w)(p \<mapsto>
                            take n (the (utf8_encode (nl_write (linesep pf) (re_sub (nl_read s))))))\<rparr>)))"
proof (cases "utf8_decode bs")
  case None
  then show ?thesis
    by (simp add: replace_pii_try_eligible [OF assms] Let_def)
next
  case (Some s)
  from rewritten_text_encodes [OF Some, of pf] obtain bs' where
    "utf8_encode (nl_write (linesep pf) (re_sub (nl_read s))) = Some bs'" ..
  with Some show ?thesis
    by (simp add: replace_pii_try_eligible [OF assms] write_text_eq Let_def split: option.splits)
qed

lemma replace_pii_skip:
  "\<not> eligible p w \<Longrightarrow> replace_pii pf p w = (None, log_event (Open p RB) w)"
  by (simp add: eligible_def replace_pii_def replace_pii_try_skip)

lemma is_system_simps [simp]:
  "is_system (System c)" "\<not> is_system (Open p m)" "\<not> is_system (Print p e)"
  by (simp_all add: is_system_def)

text \<open>
  The body of \<^verbatim>\<open>replace_pii\<close> changes nothing of what the environment refuses
  and nothing of the staging area; it deletes no file and touches no file but its own;
  it starts with the probe and runs no shell command.
\<close>

lemma replace_pii_try_frame:
  "io_fault (snd (replace_pii_try pf p w)) = io_fault w"
  "write_fault (snd (replace_pii_try pf p w)) = write_fault w"
  "print_fault (snd (replace_pii_try pf p w)) = print_fault w"
  "flush_fault (snd (replace_pii_try pf p w)) = flush_fault w"
  "git_fault (snd (replace_pii_try pf p w)) = git_fault w"
  "ignored (snd (replace_pii_try pf p w)) = ignored w"
  "staged (snd (replace_pii_try pf p w)) = staged w"
  "dom (files (snd (replace_pii_try pf p w))) = dom (files w)"
  "q \<noteq> p \<Longrightarrow> files (snd (replace_pii_try pf p w)) q = files w q"
  "\<exists>evs. trace (snd (replace_pii_try pf p w)) = trace w @ Open p RB # evs \<and>
         (\<forall>e\<in>set evs. \<not> is_system e)"
proof -
  let ?w = "snd (replace_pii_try pf p w)"
  have "io_fault ?w = io_fault w \<and> write_fault ?w = write_fault w \<and>
        print_fault ?w = print_fault w \<and> flush_fault ?w = flush_fault w \<and>
        git_fault ?w = git_fault w \<and> ignored ?w = ignored w \<and> staged ?w = staged w \<and>
        dom (files ?w) = dom (files w) \<and> (q \<noteq> p \<longrightarrow> files ?w q = files w q) \<and>
        (\<exists>evs. trace ?w = trace w @ Open p RB # evs \<and> (\<forall>e\<in>set evs. \<not> is_system e))"
  proof (cases "eligible p w")
    case True
    then obtain bs where bs: "files w p = Some bs"
      by (auto dest: eligible_file)
    then have d: "insert p (dom (files w)) = dom (files w)"
      by auto
    show ?thesis
      by (simp add: replace_pii_try_eligible_eq [OF True bs] Let_def d split: option.splits)
  next
    case False
    then show ?thesis
      by (simp add: eligible_def replace_pii_try_skip)
  qed
  then show "io_fault ?w = io_fault w" "write_fault ?w = write_fault w"
    "print_fault ?w = print_fault w" "flush_fault ?w = flush_fault w"
    "git_fault ?w = git_fault w" "ignored ?w = ignored w" "staged ?w = staged w"
    "dom (files ?w) = dom (files w)" "q \<noteq> p \<Longrightarrow> files ?w q = files w q"
    "\<exists>evs. trace ?w = trace w @ Open p RB # evs \<and> (\<forall>e\<in>set evs. \<not> is_system e)"
    by simp_all
qed

text \<open>
  \<^verbatim>\<open>replace_pii\<close>: the body and, if the body raised, the \<^verbatim>\<open>print\<close> of the handler,
  whose exception, if any, is the one that leaves \<^verbatim>\<open>replace_pii\<close>.
\<close>

lemma replace_pii_eq:
  "replace_pii pf p w =
     (case fst (replace_pii_try pf p w) of
        None \<Rightarrow> (None, snd (replace_pii_try pf p w))
      | Some e \<Rightarrow>
          (print_fault w (trace (snd (replace_pii_try pf p w))) p e,
           log_event (Print p e) (snd (replace_pii_try pf p w))))"
proof (cases "replace_pii_try pf p w")
  case (Pair r w')
  with replace_pii_try_frame(3) [of pf p w] have "print_fault w' = print_fault w"
    by simp
  with Pair show ?thesis
    by (simp add: replace_pii_def split: option.splits)
qed

lemma replace_pii_frame:
  "io_fault (snd (replace_pii pf p w)) = io_fault w"
  "write_fault (snd (replace_pii pf p w)) = write_fault w"
  "print_fault (snd (replace_pii pf p w)) = print_fault w"
  "flush_fault (snd (replace_pii pf p w)) = flush_fault w"
  "git_fault (snd (replace_pii pf p w)) = git_fault w"
  "ignored (snd (replace_pii pf p w)) = ignored w"
  "staged (snd (replace_pii pf p w)) = staged w"
  "dom (files (snd (replace_pii pf p w))) = dom (files w)"
  "q \<noteq> p \<Longrightarrow> files (snd (replace_pii pf p w)) q = files w q"
  by (simp_all add: replace_pii_eq replace_pii_try_frame split: option.splits)

lemma replace_pii_trace:
  "\<exists>evs. trace (snd (replace_pii pf p w)) = trace w @ Open p RB # evs \<and>
         (\<forall>e\<in>set evs. \<not> is_system e)"
proof -
  from replace_pii_try_frame(10) [of pf p w] obtain evs where
    evs: "trace (snd (replace_pii_try pf p w)) = trace w @ Open p RB # evs"
      "\<forall>e\<in>set evs. \<not> is_system e"
    by blast
  show ?thesis
  proof (cases "fst (replace_pii_try pf p w)")
    case None
    with evs show ?thesis
      by (simp add: replace_pii_eq)
  next
    case (Some e)
    with evs have "trace (snd (replace_pii pf p w)) = trace w @ Open p RB # (evs @ [Print p e])"
      "\<forall>x\<in>set (evs @ [Print p e]). \<not> is_system x"
      by (simp_all add: replace_pii_eq)
    then show ?thesis
      by blast
  qed
qed


text \<open>The loop over the lines of the listing.\<close>

lemma process_lines_Cons:
  "process_lines pf (l # ls) w =
     (case fst (replace_pii pf (strip l) w) of
        Some e \<Rightarrow> (Some e, snd (replace_pii pf (strip l) w))
      | None \<Rightarrow> process_lines pf ls (snd (replace_pii pf (strip l) w)))"
  by (cases "replace_pii pf (strip l) w") (simp split: option.splits)

declare process_lines.simps(2) [simp del]


lemma process_lines_frame:
  "io_fault (snd (process_lines pf ls w)) = io_fault w"
  "write_fault (snd (process_lines pf ls w)) = write_fault w"
  "print_fault (snd (process_lines pf ls w)) = print_fault w"
  "flush_fault (snd (process_lines pf ls w)) = flush_fault w"
  "git_fault (snd (process_lines pf ls w)) = git_fault w"
  "ignored (snd (process_lines pf ls w)) = ignored w"
  "staged (snd (process_lines pf ls w)) = staged w"
  "dom (files (snd (process_lines pf ls w))) = dom (files w)"
proof -
  let ?w = "\<lambda>ls w. snd (process_lines pf ls w)"
  have "io_fault (?w ls w) = io_fault w \<and> write_fault (?w ls w) = write_fault w \<and>
        print_fault (?w ls w) = print_fault w \<and> flush_fault (?w ls w) = flush_fault w \<and>
        git_fault (?w ls w) = git_fault w \<and> ignored (?w ls w) = ignored w \<and>
        staged (?w ls w) = staged w \<and> dom (files (?w ls w)) = dom (files w)"
  proof (induction ls arbitrary: w)
    case Nil
    then show ?case by simp
  next
    case (Cons l ls)
    show ?case
    proof (cases "fst (replace_pii pf (strip l) w)")
      case None
      with Cons [of "snd (replace_pii pf (strip l) w)"] show ?thesis
        by (simp add: process_lines_Cons replace_pii_frame)
    next
      case (Some e)
      then show ?thesis
        by (simp add: process_lines_Cons replace_pii_frame)
    qed
  qed
  then show "io_fault (?w ls w) = io_fault w" "write_fault (?w ls w) = write_fault w"
    "print_fault (?w ls w) = print_fault w" "flush_fault (?w ls w) = flush_fault w"
    "git_fault (?w ls w) = git_fault w" "ignored (?w ls w) = ignored w"
    "staged (?w ls w) = staged w" "dom (files (?w ls w)) = dom (files w)"
    by simp_all
qed

lemma process_lines_trace:
  "\<exists>evs. trace (snd (process_lines pf ls w)) = trace w @ evs \<and> (\<forall>e\<in>set evs. \<not> is_system e) \<and>
         (fst (process_lines pf ls w) = None \<longrightarrow> (\<forall>l\<in>set ls. Open (strip l) RB \<in> set evs))"
proof (induction ls arbitrary: w)
  case Nil
  then show ?case by simp
next
  case (Cons l ls)
  let ?w1 = "snd (replace_pii pf (strip l) w)"
  from replace_pii_trace [of pf "strip l" w] obtain e1 where
    e1: "trace ?w1 = trace w @ Open (strip l) RB # e1" "\<forall>e\<in>set e1. \<not> is_system e"
    by blast
  show ?case
  proof (cases "fst (replace_pii pf (strip l) w)")
    case (Some x)
    then have "process_lines pf (l # ls) w = (Some x, ?w1)"
      by (simp add: process_lines_Cons)
    with e1 have "trace (snd (process_lines pf (l # ls) w)) = trace w @ (Open (strip l) RB # e1)"
      "\<forall>e\<in>set (Open (strip l) RB # e1). \<not> is_system e"
      "fst (process_lines pf (l # ls) w) \<noteq> None"
      by simp_all
    then show ?thesis
      by (intro exI [of _ "Open (strip l) RB # e1"]) auto
  next
    case None
    then have p: "process_lines pf (l # ls) w = process_lines pf ls ?w1"
      by (simp add: process_lines_Cons)
    from Cons.IH [of ?w1] obtain e2 where
      e2: "trace (snd (process_lines pf ls ?w1)) = trace ?w1 @ e2"
        "\<forall>e\<in>set e2. \<not> is_system e"
        "fst (process_lines pf ls ?w1) = None \<longrightarrow> (\<forall>l\<in>set ls. Open (strip l) RB \<in> set e2)"
      by auto
    have "trace (snd (process_lines pf (l # ls) w)) = trace w @ (Open (strip l) RB # e1 @ e2)"
      by (simp add: p e1 e2)
    moreover have "\<forall>e\<in>set (Open (strip l) RB # e1 @ e2). \<not> is_system e"
      using e1 e2 by auto
    moreover have "fst (process_lines pf (l # ls) w) = None \<longrightarrow>
        (\<forall>k\<in>set (l # ls). Open (strip k) RB \<in> set (Open (strip l) RB # e1 @ e2))"
      using e2 by (auto simp: p)
    ultimately show ?thesis
      by (intro exI [of _ "Open (strip l) RB # e1 @ e2"]) simp
  qed
qed


text \<open>The listing, the two shell commands, and \<^verbatim>\<open>main\<close>.\<close>

lemma read_lines_eq:
  "read_lines pf p w =
     (case files w p of
        None \<Rightarrow> (Inl OSError, log_event (Open p R) w)
      | Some bs \<Rightarrow>
          if io_fault w p R then (Inl OSError, log_event (Open p R) w)
          else case locale_decode pf bs of
                 None \<Rightarrow> (Inl UnicodeDecodeError, log_event (Open p R) w)
               | Some s \<Rightarrow> (Inr (py_lines (nl_read s)), log_event (Open p R) w))"
  by (simp add: read_lines_def open_read_eq split: option.splits)

lemma snd_read_lines [simp]: "snd (read_lines pf p w) = log_event (Open p R) w"
  by (simp add: read_lines_eq split: option.splits)

lemma git_ls_files_simps [simp]:
  "io_fault (git_ls_files listing w) = io_fault w"
  "write_fault (git_ls_files listing w) = write_fault w"
  "print_fault (git_ls_files listing w) = print_fault w"
  "flush_fault (git_ls_files listing w) = flush_fault w"
  "git_fault (git_ls_files listing w) = git_fault w"
  "ignored (git_ls_files listing w) = ignored w"
  "staged (git_ls_files listing w) = staged w"
  "trace (git_ls_files listing w) = trace w @ [System ''git ls-files > tracked_files.txt'']"
  "files (git_ls_files listing w) =
     (if io_fault w tracked_files W then files w else (files w)(tracked_files \<mapsto> listing))"
  by (simp_all add: git_ls_files_def Let_def)

lemma git_add_simps [simp]:
  "io_fault (git_add w) = io_fault w"
  "flush_fault (git_add w) = flush_fault w"
  "files (git_add w) = files w"
  "trace (git_add w) = trace w @ [System ''git add .'']"
  by (simp_all add: git_add_def Let_def)

lemma staged_git_add:
  "staged (git_add w) p =
     (if git_fault w then staged w p
      else case files w p of
             None \<Rightarrow> None
           | Some bs \<Rightarrow> if ignored w p \<and> staged w p = None then None else Some bs)"
  by (simp add: git_add_def Let_def)

lemma main_eq:
  "main pf listing w =
     (let w2 = log_event (Open tracked_files R) (git_ls_files listing w) in
      case fst (read_lines pf tracked_files (git_ls_files listing w)) of
        Inl e \<Rightarrow> (Some e, w2)
      | Inr ls \<Rightarrow>
          (case fst (process_lines pf ls w2) of
             Some e \<Rightarrow> (Some e, snd (process_lines pf ls w2))
           | None \<Rightarrow> (None, git_add (snd (process_lines pf ls w2)))))"
proof (cases "read_lines pf tracked_files (git_ls_files listing w)")
  case (Pair r w2)
  then have w2: "w2 = log_event (Open tracked_files R) (git_ls_files listing w)"
    by (auto dest: arg_cong [where f = snd])
  show ?thesis
  proof (cases r)
    case (Inl e)
    with Pair w2 show ?thesis
      by (simp add: main_def Let_def)
  next
    case (Inr ls)
    with Pair w2 show ?thesis
      by (cases "process_lines pf ls w2") (simp add: main_def Let_def split: option.splits)
  qed
qed

lemma main_frame:
  "dom (files (snd (main pf listing w))) = dom (files (git_ls_files listing w))"
  "io_fault (snd (main pf listing w)) = io_fault w"
  "flush_fault (snd (main pf listing w)) = flush_fault w"
  by (simp_all add: main_eq Let_def process_lines_frame split: sum.splits option.splits)

lemma main_trace:
  "\<exists>evs. trace (snd (main pf listing w))
           = trace w @ [System ''git ls-files > tracked_files.txt'', Open tracked_files R] @ evs @
               (if fst (main pf listing w) = None then [System ''git add .''] else []) \<and>
         (\<forall>e\<in>set evs. \<not> is_system e) \<and>
         (\<forall>ls. fst (main pf listing w) = None \<and>
               fst (read_lines pf tracked_files (git_ls_files listing w)) = Inr ls \<longrightarrow>
               (\<forall>l\<in>set ls. Open (strip l) RB \<in> set evs))"
proof (cases "fst (read_lines pf tracked_files (git_ls_files listing w))")
  case (Inl e)
  then show ?thesis
    by (intro exI [of _ "[]"]) (simp add: main_eq Let_def)
next
  case (Inr ls)
  let ?w2 = "log_event (Open tracked_files R) (git_ls_files listing w)"
  from process_lines_trace [of pf ls ?w2] obtain evs where
    evs: "trace (snd (process_lines pf ls ?w2)) = trace ?w2 @ evs" "\<forall>e\<in>set evs. \<not> is_system e"
      "fst (process_lines pf ls ?w2) = None \<longrightarrow> (\<forall>l\<in>set ls. Open (strip l) RB \<in> set evs)"
    by auto
  from Inr have f: "fst (main pf listing w) = fst (process_lines pf ls ?w2)"
    by (simp add: main_eq Let_def split: option.splits)
  from Inr evs(1) have "trace (snd (main pf listing w))
           = trace w @ [System ''git ls-files > tracked_files.txt'', Open tracked_files R] @ evs @
               (if fst (main pf listing w) = None then [System ''git add .''] else [])"
    by (simp add: main_eq Let_def split: option.splits)
  moreover from f evs(3) Inr have "\<forall>ls. fst (main pf listing w) = None \<and>
               fst (read_lines pf tracked_files (git_ls_files listing w)) = Inr ls \<longrightarrow>
               (\<forall>l\<in>set ls. Open (strip l) RB \<in> set evs)"
    by simp
  ultimately show ?thesis
    using evs(2) by (intro exI [of _ evs]) simp
qed

lemma main_staged:
  "staged (snd (main pf listing w)) p =
     (if fst (main pf listing w) = None \<and> \<not> git_fault w then
        (if ignored w p \<and> staged w p = None then None else files (snd (main pf listing w)) p)
      else staged w p)"
  by (simp add: main_eq Let_def process_lines_frame staged_git_add
      split: sum.splits option.splits)





text \<open>
  The body of \<^verbatim>\<open>replace_pii\<close> in the spec's words: classify, read, redact, write.
\<close>

lemma replace_pii_try_redact:
  "replace_pii_try pf p w =
     (case is_binary p w of
        (b, w1) \<Rightarrow>
          if b \<or> excluded p then (None, w1)
          else (case read_text p w1 of
                  (Inl e, w2) \<Rightarrow> (Some e, w2)
                | (Inr content, w2) \<Rightarrow> write_text pf p (redact content) w2))"
  by (simp add: replace_pii_try_def excluded_iff redact_def Let_def split: prod.splits sum.splits)






section \<open>The example runs\<close>

text \<open>
  The listing of \<^verbatim>\<open>bad.txt\<close> and \<^verbatim>\<open>ok.txt\<close>, and what \<^verbatim>\<open>replace_pii\<close> does with
  each of the two files in a world that refuses no \<^verbatim>\<open>open\<close> and no write.
\<close>

lemma bad_listing_lines:
  assumes "\<not> io_fault w tracked_files W" and "\<not> io_fault w tracked_files R"
  shows "fst (read_lines posix_utf8 tracked_files (git_ls_files bad_listing w))
           = Inr [ascii ''bad.txt'' @ [10], ascii ''ok.txt'' @ [10]]"
proof -
  have "utf8_decode bad_listing = Some (ascii ''bad.txt'' @ [10] @ ascii ''ok.txt'' @ [10])"
    by (simp add: bad_listing_def bytes_def ascii_def)
  with assms show ?thesis
    by (simp add: read_lines_eq posix_utf8_def) (simp add: ascii_def)
qed


lemma strip_names:
  "strip (ascii ''bad.txt'' @ [10]) = ascii ''bad.txt''"
  "strip (ascii ''ok.txt'' @ [10]) = ascii ''ok.txt''"
  by (simp_all add: strip_def isspace_def ascii_def)

lemma bad_file_fails:
  assumes "files w (ascii ''bad.txt'') = Some [0x61, 0xE9]"
    and "\<not> io_fault w (ascii ''bad.txt'') RB" and "\<not> io_fault w (ascii ''bad.txt'') R"
  shows "replace_pii_try pf (ascii ''bad.txt'') w
           = (Some UnicodeDecodeError,
              log_event (Open (ascii ''bad.txt'') R) (log_event (Open (ascii ''bad.txt'') RB) w))"
proof -
  have x: "\<not> excluded (ascii ''bad.txt'')"
    by code_simp
  have a: "allowed 0x61" "allowed 0xE9"
    by (simp_all add: allowed_def)
  have el: "eligible (ascii ''bad.txt'') w"
    using x a assms by (simp add: eligible_def is_binary_eq is_binary_string_iff)
  have d: "utf8_decode [0x61, 0xE9] = None"
    by simp
  from assms show ?thesis
    by (simp add: replace_pii_try_eligible [OF el assms(1)] d)
qed

lemma ok_file_passes:
  assumes "files w (ascii ''ok.txt'') = Some (bytes ''hi'')"
    and "\<not> io_fault w (ascii ''ok.txt'') RB" and "\<not> io_fault w (ascii ''ok.txt'') R"
    and "\<not> io_fault w (ascii ''ok.txt'') W" and "write_fault w (ascii ''ok.txt'') = None"
  shows "replace_pii pf (ascii ''ok.txt'') w
           = (None,
              (log_event (Open (ascii ''ok.txt'') W)
                 (log_event (Open (ascii ''ok.txt'') R) (log_event (Open (ascii ''ok.txt'') RB) w)))
                \<lparr>files := (files w)(ascii ''ok.txt'' \<mapsto> bytes ''hi'')\<rparr>)"
proof -
  have x: "\<not> excluded (ascii ''ok.txt'')"
    by code_simp
  have el: "eligible (ascii ''ok.txt'') w"
    using x assms by (simp add: eligible_def is_binary_eq is_binary_string_iff)
      (simp add: bytes_def allowed_def)
  have d: "utf8_decode (bytes ''hi'') = Some [104, 105]"
    by (simp add: bytes_def)
  have e: "utf8_encode (nl_write (linesep pf) [104, 105]) = Some (bytes ''hi'')"
    by (simp add: nl_write_def utf8_encode_cp_def bytes_def)
  have t: "replace_pii_try pf (ascii ''ok.txt'') w
           = (None,
              (log_event (Open (ascii ''ok.txt'') W)
                 (log_event (Open (ascii ''ok.txt'') R) (log_event (Open (ascii ''ok.txt'') RB) w)))
                \<lparr>files := (files w)(ascii ''ok.txt'' \<mapsto> bytes ''hi'')\<rparr>)"
    using assms by (simp add: replace_pii_try_eligible_eq [OF el assms(1)] d match_at_head e Let_def)
  then show ?thesis
    by (simp add: replace_pii_def)
qed


lemma bad_run_completed:
  assumes "files w = files bad_world" and "\<forall>p m. \<not> io_fault w p m"
    and "\<forall>p. write_fault w p = None" and "\<forall>t p e. print_fault w t p e = None"
  shows "fst (main posix_utf8 bad_listing w) = None"
    and "trace (snd (main posix_utf8 bad_listing w))
           = trace w @
             [System ''git ls-files > tracked_files.txt'', Open tracked_files R,
              Open (ascii ''bad.txt'') RB, Open (ascii ''bad.txt'') R,
              Print (ascii ''bad.txt'') UnicodeDecodeError,
              Open (ascii ''ok.txt'') RB, Open (ascii ''ok.txt'') R, Open (ascii ''ok.txt'') W,
              System ''git add .'']"
    and "files (snd (main posix_utf8 bad_listing w)) tracked_files = Some bad_listing"
proof -
  let ?w2 = "log_event (Open tracked_files R) (git_ls_files bad_listing w)"
  let ?w3 = "log_event (Print (ascii ''bad.txt'') UnicodeDecodeError)
               (log_event (Open (ascii ''bad.txt'') R) (log_event (Open (ascii ''bad.txt'') RB) ?w2))"
  let ?w4 = "(log_event (Open (ascii ''ok.txt'') W)
               (log_event (Open (ascii ''ok.txt'') R) (log_event (Open (ascii ''ok.txt'') RB) ?w3)))
             \<lparr>files := (files ?w3)(ascii ''ok.txt'' \<mapsto> bytes ''hi'')\<rparr>"
  have f: "files ?w2 (ascii ''bad.txt'') = Some [0x61, 0xE9]"
    by (simp add: assms bad_world_def world_of_def tracked_files_def ascii_def)
  have t: "replace_pii_try posix_utf8 (ascii ''bad.txt'') ?w2
             = (Some UnicodeDecodeError,
                log_event (Open (ascii ''bad.txt'') R) (log_event (Open (ascii ''bad.txt'') RB) ?w2))"
    by (rule bad_file_fails [OF f]) (simp_all add: assms)
  have r: "replace_pii posix_utf8 (ascii ''bad.txt'') ?w2 = (None, ?w3)"
    by (simp add: replace_pii_eq t assms)
  have g: "files ?w3 (ascii ''ok.txt'') = Some (bytes ''hi'')"
    by (simp add: assms bad_world_def world_of_def tracked_files_def ascii_def)
  have k: "replace_pii posix_utf8 (ascii ''ok.txt'') ?w3 = (None, ?w4)"
    by (rule ok_file_passes [OF g]) (simp_all add: assms)
  have l: "fst (read_lines posix_utf8 tracked_files (git_ls_files bad_listing w))
             = Inr [ascii ''bad.txt'' @ [10], ascii ''ok.txt'' @ [10]]"
    by (rule bad_listing_lines) (simp_all add: assms)
  have m: "main posix_utf8 bad_listing w = (None, git_add ?w4)"
    by (simp add: main_eq l process_lines_Cons strip_names r k)
  show "fst (main posix_utf8 bad_listing w) = None"
    by (simp add: m)
  show "trace (snd (main posix_utf8 bad_listing w))
           = trace w @
             [System ''git ls-files > tracked_files.txt'', Open tracked_files R,
              Open (ascii ''bad.txt'') RB, Open (ascii ''bad.txt'') R,
              Print (ascii ''bad.txt'') UnicodeDecodeError,
              Open (ascii ''ok.txt'') RB, Open (ascii ''ok.txt'') R, Open (ascii ''ok.txt'') W,
              System ''git add .'']"
    by (simp add: m)
  show "files (snd (main posix_utf8 bad_listing w)) tracked_files = Some bad_listing"
    by (simp add: m assms tracked_files_def ascii_def)
qed


lemma is_print_simps [simp]:
  "is_print (Print p e)" "\<not> is_print (Open p m)" "\<not> is_print (System c)"
  by (simp_all add: is_print_def)

section \<open>The claims\<close>

subsection \<open>Redaction of the text\<close>

text \<open>
  Claim C1, as the spec states it, does not hold for every text: where two occurrences
  of the user-home pattern overlap, only the first is replaced. In the text below
  (B for the backslash, \<^verbatim>\<open>PATH=C:BUsersBalice;C:BUsersBbobBbin\<close>) the user path
  \<^verbatim>\<open>C:BUsersBbobB\<close> is an occurrence of the pattern. The substitution matches
  \<^verbatim>\<open>C:BUsersBalice;C:B\<close> first, whose segment \<^verbatim>\<open>alice;C:\<close> holds the start of the
  second path, and goes on behind it: the result is \<^verbatim>\<open>PATH=/USER_HOME/UsersBbobBbin\<close>.
  The second path is not replaced by \<^verbatim>\<open>/USER_HOME/\<close> and the name \<^verbatim>\<open>bob\<close> is still
  in the text.
\<close>

theorem overlapped_occurrence_is_not_replaced:
  "user_path bob_path
   \<and> path_variable
       = (ascii ''PATH=C:'' @ backslash # ascii ''Users'' @ backslash # ascii ''alice;'') @ bob_path @
         ascii ''bin''
   \<and> redact path_variable
       = ascii ''PATH=/USER_HOME/Users'' @ backslash # ascii ''bob'' @ backslash # ascii ''bin''
   \<and> sublist (ascii ''bob'') (redact path_variable)
   \<and> redact path_variable
       \<noteq> (ascii ''PATH=C:'' @ backslash # ascii ''Users'' @ backslash # ascii ''alice;'') @ user_home @
         ascii ''bin''"
proof -
  have u: "user_path bob_path"
    by (simp add: bob_path_def user_path_def ascii_def users_prefix_def backslash_def)
  have p: "path_variable
       = (ascii ''PATH=C:'' @ backslash # ascii ''Users'' @ backslash # ascii ''alice;'') @ bob_path @
         ascii ''bin''"
    by (simp add: path_variable_def)
  have r: "redact path_variable
       = ascii ''PATH=/USER_HOME/Users'' @ backslash # ascii ''bob'' @ backslash # ascii ''bin''"
    by (simp add: redact_re_sub path_variable_def bob_path_def ascii_def match_at_def
        users_prefix_def user_home_def backslash_def)
  have "ascii ''PATH=/USER_HOME/Users'' @ backslash # ascii ''bob'' @ backslash # ascii ''bin''
          = (ascii ''PATH=/USER_HOME/Users'' @ [backslash]) @ ascii ''bob'' @ (backslash # ascii ''bin'')"
    by simp
  then have s: "sublist (ascii ''bob'') (redact path_variable)"
    unfolding r sublist_def by blast
  have n: "redact path_variable
       \<noteq> (ascii ''PATH=C:'' @ backslash # ascii ''Users'' @ backslash # ascii ''alice;'') @ user_home @
         ascii ''bin''"
    unfolding r by (simp add: ascii_def user_home_def backslash_def)
  from u p r s n show ?thesis
    by blast
qed

text \<open>
  Claim C1, amended. For every input string, \<^verbatim>\<open>redact\<close> replaces by
  \<^verbatim>\<open>/USER_HOME/\<close> the occurrences of the user-home pattern that the substitution
  finds when it scans from the left without overlap, and leaves all other characters
  unchanged; an occurrence that begins inside an earlier match is not replaced. The two
  examples of the spec come out as the spec says. Where an occurrence starts at the
  front of the text it is replaced and the rest is redacted (fourth conjunct); where
  none starts at the front the first character is kept and the rest is redacted
  (fifth); the empty text stays empty. The text before the leftmost occurrence is
  kept, that occurrence is replaced, and what follows it is redacted in the same way
  (sixth); a text without any occurrence is left as it is (seventh). In the result no
  occurrence of the pattern is left anywhere (last conjunct).
\<close>

theorem redact_replaces_leftmost_user_paths:
  "redact (ascii ''Config at C:'' @ backslash # ascii ''Users'' @ backslash # ascii ''alice''
             @ backslash # ascii ''settings.ini'')
     = ascii ''Config at /USER_HOME/settings.ini''
   \<and> redact (ascii ''C:'' @ backslash # ascii ''Users'' @ backslash # ascii ''bob'' @ [backslash])
     = ascii ''/USER_HOME/''
   \<and> redact [] = []
   \<and> (user_path m \<longrightarrow> redact (m @ rest) = user_home @ redact rest)
   \<and> ((\<forall>m r. c # cs = m @ r \<longrightarrow> \<not> user_path m) \<longrightarrow> redact (c # cs) = c # redact cs)
   \<and> (user_path n \<and>
        (\<forall>u' m' v'. u @ n @ v = u' @ m' @ v' \<and> user_path m' \<longrightarrow> length u \<le> length u') \<longrightarrow>
          redact (u @ n @ v) = u @ user_home @ redact v)
   \<and> ((\<forall>u m v. t = u @ m @ v \<longrightarrow> \<not> user_path m) \<longrightarrow> redact t = t)
   \<and> (\<forall>u m v. redact s = u @ m @ v \<longrightarrow> \<not> user_path m)"
proof (intro conjI impI)
  show "redact (ascii ''Config at C:'' @ backslash # ascii ''Users'' @ backslash # ascii ''alice''
             @ backslash # ascii ''settings.ini'')
     = ascii ''Config at /USER_HOME/settings.ini''"
    by (simp add: redact_re_sub ascii_def match_at_def users_prefix_def user_home_def backslash_def)
  show "redact (ascii ''C:'' @ backslash # ascii ''Users'' @ backslash # ascii ''bob'' @ [backslash])
     = ascii ''/USER_HOME/''"
    by (simp add: redact_re_sub ascii_def match_at_def users_prefix_def user_home_def backslash_def)
  show "redact [] = []"
    by (simp add: redact_re_sub)
next
  assume u: "user_path m"
  then have "match_at (m @ rest) = Some rest"
    by (auto simp: match_at_user_path)
  moreover from u obtain t where "m @ rest = 67 # t @ rest"
    by (auto dest: user_path_Cons)
  ultimately show "redact (m @ rest) = user_home @ redact rest"
    by (simp add: redact_re_sub)
next
  assume "\<forall>m r. c # cs = m @ r \<longrightarrow> \<not> user_path m"
  then have "match_at (c # cs) = None"
    by (cases "match_at (c # cs)") (auto simp: match_at_user_path)
  then show "redact (c # cs) = c # redact cs"
    by (simp add: redact_re_sub)
next
  assume "user_path n \<and>
        (\<forall>u' m' v'. u @ n @ v = u' @ m' @ v' \<and> user_path m' \<longrightarrow> length u \<le> length u')"
  then show "redact (u @ n @ v) = u @ user_home @ redact v"
    by (simp add: redact_re_sub re_sub_leftmost)
next
  assume "\<forall>u m v. t = u @ m @ v \<longrightarrow> \<not> user_path m"
  then have "\<not> has_match t"
    by (auto simp: has_match_iff)
  then show "redact t = t"
    by (simp add: redact_re_sub re_sub_no_match)
next
  have "\<not> has_match (redact s)"
    by (simp add: redact_re_sub no_match_re_sub)
  then show "\<forall>u m v. redact s = u @ m @ v \<longrightarrow> \<not> user_path m"
    by (auto simp: has_match_iff)
qed

theorem redact_replaces_leftmost_user_paths_witness:
  "user_path bob_path
   \<and> redact (bob_path @ ascii ''notes.txt'') = user_home @ redact (ascii ''notes.txt'')
   \<and> redact (ascii ''D:'' @ backslash # ascii ''Users'' @ backslash # ascii ''bob'' @ [backslash])
       = 68 # redact (ascii '':'' @ backslash # ascii ''Users'' @ backslash # ascii ''bob'' @ [backslash])
   \<and> redact (ascii ''cd '' @ bob_path @ ascii ''src'') = ascii ''cd '' @ user_home @ redact (ascii ''src'')
   \<and> redact (ascii ''no path here'') = ascii ''no path here''"
proof -
  let ?cs = "ascii '':'' @ backslash # ascii ''Users'' @ backslash # ascii ''bob'' @ [backslash]"
  have u: "user_path bob_path"
    by (simp add: bob_path_def user_path_def ascii_def users_prefix_def backslash_def)
  have n: "\<forall>m r. 68 # ?cs = m @ r \<longrightarrow> \<not> user_path m"
    by (auto dest!: user_path_Cons)
  have d: "ascii ''D:'' @ backslash # ascii ''Users'' @ backslash # ascii ''bob'' @ [backslash] = 68 # ?cs"
    by (simp add: ascii_def)
  have l: "\<forall>u' m' v'. ascii ''cd '' @ bob_path @ ascii ''src'' = u' @ m' @ v' \<and> user_path m' \<longrightarrow>
             length (ascii ''cd '') \<le> length u'"
  proof (intro allI impI)
    fix u' m' v'
    assume a: "ascii ''cd '' @ bob_path @ ascii ''src'' = u' @ m' @ v' \<and> user_path m'"
    then obtain k where m': "m' = 67 # k"
      by (auto dest: user_path_Cons)
    show "length (ascii ''cd '') \<le> length u'"
    proof (rule ccontr)
      assume "\<not> length (ascii ''cd '') \<le> length u'"
      then have "length u' < 3"
        by (simp add: ascii_def)
      then have "(ascii ''cd '' @ bob_path @ ascii ''src'') ! length u' \<noteq> 67"
        by (cases "length u'" rule: nat.exhaust [case_names z s])
          (auto simp: ascii_def nth_Cons split: nat.splits)
      moreover from a m' have "(ascii ''cd '' @ bob_path @ ascii ''src'') ! length u' = 67"
        by (simp add: nth_append)
      ultimately show False
        by simp
    qed
  qed
  have h: "\<forall>u m v. ascii ''no path here'' = u @ m @ v \<longrightarrow> \<not> user_path m"
  proof -
    have "\<not> has_match (ascii ''no path here'')"
      by (simp add: ascii_def match_at_head)
    then show ?thesis
      by (auto simp: has_match_iff)
  qed
  from u n l h show ?thesis
    using redact_replaces_leftmost_user_paths
      [of bob_path "ascii ''notes.txt''" 68 ?cs bob_path "ascii ''cd ''" "ascii ''src''"
          "ascii ''no path here''" "[]"]
    unfolding d by blast
qed

text \<open>
  Claim C3. Applying \<^verbatim>\<open>redact\<close> twice gives the same text as applying it once.
\<close>

theorem redact_idempotent: "redact (redact content) = redact content"
  by (simp add: redact_re_sub re_sub_idem)

text \<open>
  Claim C9. The literal rule replaces \<^verbatim>\<open>USER\<close> by \<^verbatim>\<open>USER\<close>, which changes no text;
  so \<^verbatim>\<open>redact\<close> is the regular-expression substitution alone.
\<close>

theorem literal_rule_is_identity:
  "str_replace (ascii ''USER'') (ascii ''USER'') content = content
   \<and> redact content = re_sub content"
  by (simp add: str_replace_id redact_re_sub)

subsection \<open>Classification\<close>

text \<open>
  Claim C2. For every readable file, \<^verbatim>\<open>is_binary\<close> reports binary exactly when one of
  the first 1024 bytes of the file is outside the allowed set; in particular a file
  that holds allowed bytes only is never reported binary.
\<close>

theorem is_binary_iff_disallowed_byte:
  assumes "files w p = Some bs" and "\<not> io_fault w p RB"
  shows "(fst (is_binary p w) \<longleftrightarrow> (\<exists>b\<in>set (take 1024 bs). \<not> allowed b))
       \<and> ((\<forall>b\<in>set bs. allowed b) \<longrightarrow> \<not> fst (is_binary p w))"
proof -
  from assms have "fst (is_binary p w) \<longleftrightarrow> (\<exists>b\<in>set (take 1024 bs). \<not> allowed b)"
    by (simp add: is_binary_eq is_binary_string_iff)
  then show ?thesis
    by (auto dest: in_set_takeD)
qed

theorem is_binary_iff_disallowed_byte_witness:
  "fst (is_binary (ascii ''logo.png'') (world_of [(ascii ''logo.png'', [0x89, 0x50, 0x4E, 0x47, 0x00])]))
   \<and> \<not> fst (is_binary (ascii ''a.txt'') (world_of [(ascii ''a.txt'', bytes ''plain text'')]))
   \<and> \<not> fst (is_binary (ascii ''long.txt'')
              (world_of [(ascii ''long.txt'', replicate 1024 0x61 @ [0x00])]))"
proof -
  have 1: "\<not> allowed 0x00" and 2: "allowed 0x61"
    by (simp_all add: allowed_def)
  have "fst (is_binary (ascii ''logo.png'') (world_of [(ascii ''logo.png'', [0x89, 0x50, 0x4E, 0x47, 0x00])]))"
    using is_binary_iff_disallowed_byte
      [of "world_of [(ascii ''logo.png'', [0x89, 0x50, 0x4E, 0x47, 0x00])]" "ascii ''logo.png''"
          "[0x89, 0x50, 0x4E, 0x47, 0x00]"] 1
    by (simp add: world_of_def)
  moreover have "\<not> fst (is_binary (ascii ''a.txt'') (world_of [(ascii ''a.txt'', bytes ''plain text'')]))"
    using is_binary_iff_disallowed_byte
      [of "world_of [(ascii ''a.txt'', bytes ''plain text'')]" "ascii ''a.txt''" "bytes ''plain text''"]
    by (simp add: world_of_def bytes_def allowed_def)
  moreover have "\<not> fst (is_binary (ascii ''long.txt'')
              (world_of [(ascii ''long.txt'', replicate 1024 0x61 @ [0x00])]))"
    using is_binary_iff_disallowed_byte
      [of "world_of [(ascii ''long.txt'', replicate 1024 0x61 @ [0x00])]" "ascii ''long.txt''"
          "replicate 1024 0x61 @ [0x00]"] 2
    by (simp add: world_of_def)
  ultimately show ?thesis by blast
qed

text \<open>
  Claim C4. A file whose path contains one of the substrings \<^verbatim>\<open>vendor/\<close>,
  \<^verbatim>\<open>node_modules/\<close>, \<^verbatim>\<open>.git/\<close>, \<^verbatim>\<open>.history/\<close>, \<^verbatim>\<open>dist/\<close>, or whose first 1024 bytes
  hold a disallowed byte, is skipped whatever its content: \<^verbatim>\<open>replace_pii\<close> returns
  without an exception, all files are left as they were, and all that \<^verbatim>\<open>replace_pii\<close>
  does is the probe (the file is opened once, for reading bytes), so the file is never
  opened for writing.
\<close>

theorem excluded_or_binary_is_skipped:
  assumes "excluded p \<or> (\<exists>bs. files w p = Some bs \<and> (\<exists>b\<in>set (take 1024 bs). \<not> allowed b))"
  shows "files (snd (replace_pii pf p w)) = files w
       \<and> trace (snd (replace_pii pf p w)) = trace w @ [Open p RB]
       \<and> Open p W \<notin> set (drop (length (trace w)) (trace (snd (replace_pii pf p w))))
       \<and> fst (replace_pii pf p w) = None"
proof -
  from assms have "\<not> eligible p w"
    by (auto simp: eligible_def is_binary_eq is_binary_string_iff)
  then show ?thesis
    by (simp add: replace_pii_skip)
qed

theorem excluded_or_binary_is_skipped_witness:
  "excluded (ascii ''vendor/lib/util.py'')
   \<and> files (snd (replace_pii posix_utf8 (ascii ''vendor/lib/util.py'')
              (world_of [(ascii ''vendor/lib/util.py'', vendored_file)])))
       = files (world_of [(ascii ''vendor/lib/util.py'', vendored_file)])
   \<and> files (snd (replace_pii posix_utf8 (ascii ''data.bin'') (world_of [(ascii ''data.bin'', [0x43, 0x00])])))
       = files (world_of [(ascii ''data.bin'', [0x43, 0x00])])
   \<and> trace (snd (replace_pii posix_utf8 (ascii ''data.bin'') (world_of [(ascii ''data.bin'', [0x43, 0x00])])))
       = [Open (ascii ''data.bin'') RB]"
proof -
  have e: "excluded (ascii ''vendor/lib/util.py'')"
    by code_simp
  have b: "\<exists>bs. files (world_of [(ascii ''data.bin'', [0x43, 0x00])]) (ascii ''data.bin'') = Some bs \<and>
             (\<exists>b\<in>set (take 1024 bs). \<not> allowed b)"
    by (simp add: world_of_def allowed_def)
  from e b show ?thesis
    using excluded_or_binary_is_skipped
        [of "ascii ''vendor/lib/util.py''" "world_of [(ascii ''vendor/lib/util.py'', vendored_file)]"
            posix_utf8]
      excluded_or_binary_is_skipped
        [of "ascii ''data.bin''" "world_of [(ascii ''data.bin'', [0x43, 0x00])]" posix_utf8]
    by (simp add: world_of_def)
qed

text \<open>
  Claim C7. When the probe of the first 1024 bytes raises an I/O error (there is no
  such file, or the system refuses to open it), the body of \<^verbatim>\<open>is_binary\<close> ends with
  that error and \<^verbatim>\<open>is_binary\<close> itself returns true; \<^verbatim>\<open>replace_pii\<close> then leaves all
  files as they were, prints nothing and returns without an exception: the probe is
  the only thing it does.
\<close>

theorem probe_failure_is_binary:
  assumes "files w p = None \<or> io_fault w p RB"
  shows "fst (is_binary_try p w) = Inl OSError
       \<and> fst (is_binary p w)
       \<and> files (snd (replace_pii pf p w)) = files w
       \<and> trace (snd (replace_pii pf p w)) = trace w @ [Open p RB]
       \<and> fst (replace_pii pf p w) = None"
proof -
  from assms have "fst (is_binary_try p w) = Inl OSError" and b: "fst (is_binary p w)"
    by (auto simp: is_binary_try_eq is_binary_eq split: option.splits)
  moreover from b have "\<not> eligible p w"
    by (simp add: eligible_def)
  ultimately show ?thesis
    by (simp add: replace_pii_skip)
qed

theorem probe_failure_is_binary_witness:
  "fst (is_binary (ascii ''gone.txt'') (world_of []))
   \<and> fst (is_binary (ascii ''secret.txt'')
        ((world_of [(ascii ''secret.txt'', bytes ''text'')])\<lparr>io_fault := \<lambda>p m. True\<rparr>))
   \<and> trace (snd (replace_pii posix_utf8 (ascii ''secret.txt'')
        ((world_of [(ascii ''secret.txt'', bytes ''text'')])\<lparr>io_fault := \<lambda>p m. True\<rparr>)))
       = [Open (ascii ''secret.txt'') RB]"
  using probe_failure_is_binary [of "world_of []" "ascii ''gone.txt''" posix_utf8]
    probe_failure_is_binary
      [of "(world_of [(ascii ''secret.txt'', bytes ''text'')])\<lparr>io_fault := \<lambda>p m. True\<rparr>"
          "ascii ''secret.txt''" posix_utf8]
  by (simp add: world_of_def)

subsection \<open>Processing a file\<close>







subsection \<open>The run\<close>




text \<open>
  Claim C10, as stated, does not hold for every run. With an old, read-only
  \<^verbatim>\<open>tracked_files.txt\<close> the shell cannot overwrite the file: the run goes on with the
  old listing and stages the old file. Where nothing may be written the file is not
  created, and nothing is staged. Where the file is written but an ignore rule of the
  repository covers it, \<^verbatim>\<open>git add .\<close> leaves it out; and where \<^verbatim>\<open>git add .\<close> fails,
  nothing is staged at all, which the script does not notice.
\<close>

theorem listing_file_is_not_always_written_or_staged:
  "fst (main posix_utf8 (bytes ''new.txt'' @ [0x0A]) stale_world) = None
   \<and> files (snd (main posix_utf8 (bytes ''new.txt'' @ [0x0A]) stale_world)) tracked_files
       = Some (bytes ''old.txt'' @ [0x0A])
   \<and> staged (snd (main posix_utf8 (bytes ''new.txt'' @ [0x0A]) stale_world)) tracked_files
       = Some (bytes ''old.txt'' @ [0x0A])
   \<and> bytes ''old.txt'' @ [0x0A] \<noteq> bytes ''new.txt'' @ [0x0A]
   \<and> fst (main posix_utf8 (bytes ''a.txt'' @ [0x0A]) readonly_world) = Some OSError
   \<and> files (snd (main posix_utf8 (bytes ''a.txt'' @ [0x0A]) readonly_world)) tracked_files = None
   \<and> staged (snd (main posix_utf8 (bytes ''a.txt'' @ [0x0A]) readonly_world)) tracked_files = None
   \<and> fst (main posix_utf8 bad_listing ignoring_world) = None
   \<and> files (snd (main posix_utf8 bad_listing ignoring_world)) tracked_files = Some bad_listing
   \<and> staged (snd (main posix_utf8 bad_listing ignoring_world)) tracked_files = None
   \<and> fst (main posix_utf8 bad_listing no_index_world) = None
   \<and> files (snd (main posix_utf8 bad_listing no_index_world)) tracked_files = Some bad_listing
   \<and> staged (snd (main posix_utf8 bad_listing no_index_world)) tracked_files = None"
proof -
  let ?L = "bytes ''new.txt'' @ [0x0A]"
  let ?w2 = "log_event (Open tracked_files R) (git_ls_files ?L stale_world)"
  have f: "files stale_world tracked_files = Some (bytes ''old.txt'' @ [0x0A])"
    by (simp add: stale_world_def world_of_def)
  have io: "io_fault stale_world tracked_files W" "\<not> io_fault stale_world tracked_files R"
    by (simp_all add: stale_world_def world_of_def)
  have g: "\<not> git_fault stale_world" "\<not> ignored stale_world tracked_files"
    by (simp_all add: stale_world_def world_of_def)
  have u: "utf8_decode (bytes ''old.txt'' @ [0x0A]) = Some (ascii ''old.txt'' @ [10])"
    by (simp add: bytes_def ascii_def)
  have rl: "fst (read_lines posix_utf8 tracked_files (git_ls_files ?L stale_world))
              = Inr [ascii ''old.txt'' @ [10]]"
    by (simp add: read_lines_eq f io posix_utf8_def u) (simp add: ascii_def)
  have s: "strip (ascii ''old.txt'' @ [10]) = ascii ''old.txt''"
    by (simp add: strip_def isspace_def ascii_def)
  have "files ?w2 (ascii ''old.txt'') = None"
    by (simp add: io stale_world_def world_of_def tracked_files_def ascii_def)
  then have "\<not> eligible (ascii ''old.txt'') ?w2"
    by (simp add: eligible_def is_binary_eq)
  then have p: "replace_pii posix_utf8 (strip (ascii ''old.txt'' @ [10])) ?w2
                  = (None, log_event (Open (ascii ''old.txt'') RB) ?w2)"
    by (simp add: s replace_pii_skip)
  have m: "main posix_utf8 ?L stale_world = (None, git_add (log_event (Open (ascii ''old.txt'') RB) ?w2))"
    by (simp add: main_eq rl process_lines_Cons p)
  have 1: "fst (main posix_utf8 ?L stale_world) = None"
    "files (snd (main posix_utf8 ?L stale_world)) tracked_files = Some (bytes ''old.txt'' @ [0x0A])"
    "staged (snd (main posix_utf8 ?L stale_world)) tracked_files = Some (bytes ''old.txt'' @ [0x0A])"
    by (simp_all add: m staged_git_add f io g)
  have ne: "bytes ''old.txt'' @ [0x0A] \<noteq> bytes ''new.txt'' @ [0x0A]"
    by (simp add: bytes_def)
  have m': "main posix_utf8 (bytes ''a.txt'' @ [0x0A]) readonly_world
          = (Some OSError, log_event (Open tracked_files R)
               (git_ls_files (bytes ''a.txt'' @ [0x0A]) readonly_world))"
    by (simp add: main_eq read_lines_eq readonly_world_def world_of_def tracked_files_def ascii_def)
  have r: "files readonly_world tracked_files = None" "io_fault readonly_world tracked_files W"
    "staged readonly_world tracked_files = None"
    by (simp_all add: readonly_world_def world_of_def tracked_files_def ascii_def)
  have 2: "fst (main posix_utf8 (bytes ''a.txt'' @ [0x0A]) readonly_world) = Some OSError"
    "files (snd (main posix_utf8 (bytes ''a.txt'' @ [0x0A]) readonly_world)) tracked_files = None"
    "staged (snd (main posix_utf8 (bytes ''a.txt'' @ [0x0A]) readonly_world)) tracked_files = None"
    by (simp_all add: m' r)
  have i: "files ignoring_world = files bad_world" "\<forall>p m. \<not> io_fault ignoring_world p m"
    "\<forall>p. write_fault ignoring_world p = None" "\<forall>t p e. print_fault ignoring_world t p e = None"
    "ignored ignoring_world tracked_files" "staged ignoring_world tracked_files = None"
    by (simp_all add: ignoring_world_def bad_world_def world_of_def tracked_files_def ascii_def)
  note bi = bad_run_completed [OF i(1,2,3,4)]
  from bi(1) i(5,6)
  have 3: "staged (snd (main posix_utf8 bad_listing ignoring_world)) tracked_files = None"
    by (simp add: main_staged)
  have j: "files no_index_world = files bad_world" "\<forall>p m. \<not> io_fault no_index_world p m"
    "\<forall>p. write_fault no_index_world p = None" "\<forall>t p e. print_fault no_index_world t p e = None"
    "git_fault no_index_world" "staged no_index_world tracked_files = None"
    by (simp_all add: no_index_world_def bad_world_def world_of_def tracked_files_def ascii_def)
  note bj = bad_run_completed [OF j(1,2,3,4)]
  from j(5,6)
  have 4: "staged (snd (main posix_utf8 bad_listing no_index_world)) tracked_files = None"
    by (simp add: main_staged)
  from 1 ne 2 bi(1,3) 3 bj(1,3) 4 show ?thesis
    by blast
qed

text \<open>
  Claim C10, amended. Every run in which the shell may write
  \<^verbatim>\<open>tracked_files.txt\<close> creates or overwrites it with the output of the listing
  command. No run deletes it, or any other file. Every run that ends without an
  exception has invoked \<^verbatim>\<open>git add .\<close> as its last action, with \<^verbatim>\<open>tracked_files.txt\<close>
  in the working directory. If that command does not fail, it has staged every file of
  the working directory as it then is, \<^verbatim>\<open>tracked_files.txt\<close> among them, except the
  files that an ignore rule covers and that were not in the staging area before, which
  stay out of it. If the command fails, or the run ends with an exception, the staging
  area is as it was before the run.
\<close>

theorem listing_file_is_left_and_staged_unless_ignored:
  "(\<not> io_fault w tracked_files W \<longrightarrow> files (git_ls_files listing w) tracked_files = Some listing)
   \<and> dom (files w) \<subseteq> dom (files (snd (main pf listing w)))
   \<and> (\<not> io_fault w tracked_files W \<longrightarrow> tracked_files \<in> dom (files (snd (main pf listing w))))
   \<and> (fst (main pf listing w) = None \<longrightarrow>
        last (trace (snd (main pf listing w))) = System ''git add .'' \<and>
        tracked_files \<in> dom (files (snd (main pf listing w))) \<and>
        (\<not> git_fault w \<longrightarrow>
           (\<forall>p. \<not> (ignored w p \<and> staged w p = None) \<longrightarrow>
                staged (snd (main pf listing w)) p = files (snd (main pf listing w)) p) \<and>
           (\<forall>p. ignored w p \<and> staged w p = None \<longrightarrow> staged (snd (main pf listing w)) p = None) \<and>
           (\<not> (ignored w tracked_files \<and> staged w tracked_files = None) \<longrightarrow>
              tracked_files \<in> dom (staged (snd (main pf listing w))))) \<and>
        (git_fault w \<longrightarrow> staged (snd (main pf listing w)) = staged w))
   \<and> (\<forall>e. fst (main pf listing w) = Some e \<longrightarrow> staged (snd (main pf listing w)) = staged w)"
proof -
  have 1: "files (git_ls_files listing w) tracked_files = Some listing"
    if "\<not> io_fault w tracked_files W"
    using that by simp
  have "dom (files w) \<subseteq> dom (files (git_ls_files listing w))"
    by auto
  with main_frame(1) [of pf listing w] have 2: "dom (files w) \<subseteq> dom (files (snd (main pf listing w)))"
    by blast
  have 3: "tracked_files \<in> dom (files (snd (main pf listing w)))"
    if "\<not> io_fault w tracked_files W"
  proof -
    from that have "tracked_files \<in> dom (files (git_ls_files listing w))"
      by simp
    with main_frame(1) [of pf listing w] show ?thesis
      by blast
  qed
  have 4: "last (trace (snd (main pf listing w))) = System ''git add .'' \<and>
        tracked_files \<in> dom (files (snd (main pf listing w))) \<and>
        (\<not> git_fault w \<longrightarrow>
           (\<forall>p. \<not> (ignored w p \<and> staged w p = None) \<longrightarrow>
                staged (snd (main pf listing w)) p = files (snd (main pf listing w)) p) \<and>
           (\<forall>p. ignored w p \<and> staged w p = None \<longrightarrow> staged (snd (main pf listing w)) p = None) \<and>
           (\<not> (ignored w tracked_files \<and> staged w tracked_files = None) \<longrightarrow>
              tracked_files \<in> dom (staged (snd (main pf listing w))))) \<and>
        (git_fault w \<longrightarrow> staged (snd (main pf listing w)) = staged w)"
    if n: "fst (main pf listing w) = None"
  proof -
    from main_trace [of pf listing w] n obtain evs where
      "trace (snd (main pf listing w))
           = trace w @ [System ''git ls-files > tracked_files.txt'', Open tracked_files R] @ evs @
               [System ''git add .'']"
      by auto
    then have l: "last (trace (snd (main pf listing w))) = System ''git add .''"
      by simp
    from n obtain ls where "fst (read_lines pf tracked_files (git_ls_files listing w)) = Inr ls"
      by (cases "fst (read_lines pf tracked_files (git_ls_files listing w))") (simp_all add: main_eq)
    then have "tracked_files \<in> dom (files (git_ls_files listing w))"
      by (auto simp: read_lines_eq split: option.splits if_splits)
    with main_frame(1) [of pf listing w] have d: "tracked_files \<in> dom (files (snd (main pf listing w)))"
      by blast
    have s: "staged (snd (main pf listing w)) p =
               (if \<not> git_fault w then
                  (if ignored w p \<and> staged w p = None then None else files (snd (main pf listing w)) p)
                else staged w p)" for p
      using n by (simp add: main_staged)
    from d have t: "\<not> git_fault w \<and> \<not> (ignored w tracked_files \<and> staged w tracked_files = None) \<longrightarrow>
              tracked_files \<in> dom (staged (snd (main pf listing w)))"
      by (auto simp: s)
    have g: "git_fault w \<longrightarrow> staged (snd (main pf listing w)) = staged w"
      by (auto simp: s)
    from l d t g show ?thesis
      by (simp add: s)
  qed
  have 5: "staged (snd (main pf listing w)) = staged w" if "fst (main pf listing w) = Some e" for e
    using that by (auto simp: main_staged)
  from 1 2 3 4 5 show ?thesis
    by blast
qed

theorem listing_file_is_left_and_staged_unless_ignored_witness:
  "files (git_ls_files bad_listing bad_world) tracked_files = Some bad_listing
   \<and> fst (main posix_utf8 bad_listing bad_world) = None
   \<and> tracked_files \<in> dom (files (snd (main posix_utf8 bad_listing bad_world)))
   \<and> tracked_files \<in> dom (staged (snd (main posix_utf8 bad_listing bad_world)))
   \<and> staged (snd (main posix_utf8 bad_listing bad_world)) tracked_files
       = files (snd (main posix_utf8 bad_listing bad_world)) tracked_files
   \<and> last (trace (snd (main posix_utf8 bad_listing bad_world))) = System ''git add .''"
proof -
  have c: "files bad_world = files bad_world" "\<forall>p m. \<not> io_fault bad_world p m"
    "\<forall>p. write_fault bad_world p = None" "\<forall>t p e. print_fault bad_world t p e = None"
    "\<not> git_fault bad_world" "\<forall>p. \<not> ignored bad_world p"
    by (simp_all add: bad_world_def world_of_def)
  note n = bad_run_completed(1) [OF c(1,2,3,4)]
  from listing_file_is_left_and_staged_unless_ignored [of bad_world bad_listing posix_utf8] c n
  show ?thesis
    by simp
qed

end
